theory Spec2Isabelle
  imports Complex_Main "HOL-Library.Sublist"
begin

section \<open>Wrong-way detection: association tracker and direction classifier\<close>

text \<open>
  A shallow embedding of the two stateful parts of \<^verbatim>\<open>Yolo.ipynb\<close>: the function
  \<^verbatim>\<open>determine_direction\<close> and the association loop of
  \<^verbatim>\<open>process_video_for_wrong_way\<close>.  Pixel centroids and frame indices are Python
  integers (\<open>int\<close>).  Box coordinates come out of the detector as floating-point numbers;
  they are idealised here as exact reals.  Dictionaries whose iteration order matters
  (\<^verbatim>\<open>tracked_objects\<close>) are association lists in insertion order; dictionaries that
  are only read by key are partial maps.
\<close>

subsection \<open>Data model\<close>

type_synonym bbox_t = "real \<times> real \<times> real \<times> real"
type_synonym point = "int \<times> int"

record box_info =
  bbox :: bbox_t
  centroid :: point
  cls :: int

record detection = box_info +
  conf :: real

record track = box_info +
  last_seen_frame :: int

text \<open>The module-level configuration variables that the two functions read.\<close>

record config =
  HISTORY_BUFFER_SIZE :: nat
  MIN_MOVEMENT_PIXELS :: int
  FLOW_TYPE :: string
  EXPECTED_DIRECTION :: string

text \<open>
  The mutable state: the four globals of the notebook and the two locals of
  \<^verbatim>\<open>process_video_for_wrong_way\<close> that live across frames.
\<close>

record state =
  object_centroid_history :: "int \<rightharpoonup> point list"
  object_direction_status :: "int \<rightharpoonup> string"
  DETECTION_LINE_Y :: "int option"
  DETECTION_LINE_X :: "int option"
  next_object_id :: int
  tracked_objects :: "(int \<times> track) list"

text \<open>The values the notebook has when it calls \<^verbatim>\<open>process_video_for_wrong_way\<close>.\<close>

definition notebook_config :: config where
  "notebook_config =
     \<lparr>HISTORY_BUFFER_SIZE = 10, MIN_MOVEMENT_PIXELS = 10,
      FLOW_TYPE = ''horizontal_flow'', EXPECTED_DIRECTION = ''right''\<rparr>"

text \<open>The state at the top of the frame loop (counters and globals reset).\<close>

definition initial_state :: state where
  "initial_state =
     \<lparr>object_centroid_history = Map.empty, object_direction_status = Map.empty,
      DETECTION_LINE_Y = None, DETECTION_LINE_X = None,
      next_object_id = 0, tracked_objects = []\<rparr>"

subsection \<open>Python primitives\<close>

text \<open>\<^verbatim>\<open>int(x)\<close> on a float truncates towards zero.\<close>

definition py_int :: "real \<Rightarrow> int" where
  "py_int x = (if 0 \<le> x then \<lfloor>x\<rfloor> else \<lceil>x\<rceil>)"

text \<open>\<^verbatim>\<open>int(n * 0.5)\<close> for an integer \<open>n\<close>.\<close>

definition int_half :: "int \<Rightarrow> int" where
  "int_half n = py_int (real_of_int n * 0.5)"

text \<open>
  \<^verbatim>\<open>d.append(x)\<close> on a \<^verbatim>\<open>deque(maxlen=m)\<close>: the item goes in on the right and,
  if the deque is then longer than \<open>m\<close>, one item is dropped on the left.
\<close>

definition deque_append :: "nat \<Rightarrow> 'a list \<Rightarrow> 'a \<Rightarrow> 'a list" where
  "deque_append m xs x = (let ys = xs @ [x] in if m < length ys then tl ys else ys)"

text \<open>
  \<^verbatim>\<open>d[k] = v\<close> on a dictionary kept in insertion order: an existing key keeps its
  position, a new key goes to the end.
\<close>

fun dict_set :: "('k \<times> 'v) list \<Rightarrow> 'k \<Rightarrow> 'v \<Rightarrow> ('k \<times> 'v) list" where
  "dict_set [] k v = [(k, v)]"
| "dict_set ((k', v') # kvs) k v =
     (if k' = k then (k, v) # kvs else (k', v') # dict_set kvs k v)"

subsection \<open>Geometry\<close>

definition calculate_centroid :: "bbox_t \<Rightarrow> point" where
  "calculate_centroid b =
     (case b of (x1, y1, x2, y2) \<Rightarrow>
        ((py_int x1 + py_int x2) div 2, (py_int y1 + py_int y2) div 2))"

text \<open>The intersection-over-union computed inline in the association loop.\<close>

definition iou :: "bbox_t \<Rightarrow> bbox_t \<Rightarrow> real" where
  "iou bbox1 bbox2 =
     (case bbox1 of (a0, a1, a2, a3) \<Rightarrow>
      case bbox2 of (b0, b1, b2, b3) \<Rightarrow>
        let x_overlap_min = max a0 b0;
            y_overlap_min = max a1 b1;
            x_overlap_max = min a2 b2;
            y_overlap_max = min a3 b3;
            overlap_width = max 0 (x_overlap_max - x_overlap_min);
            overlap_height = max 0 (y_overlap_max - y_overlap_min);
            intersection_area = overlap_width * overlap_height;
            area1 = (a2 - a0) * (a3 - a1);
            area2 = (b2 - b0) * (b3 - b1);
            union_area = area1 + area2 - intersection_area
        in if union_area > 0 then intersection_area / union_area else 0)"

subsection \<open>The direction classifier\<close>

text \<open>
  \<^verbatim>\<open>determine_direction(object_id, current_centroid, frame_width, frame_height)\<close>.
  The result is Python's \<^verbatim>\<open>None\<close>, \<^verbatim>\<open>'correct'\<close> or \<^verbatim>\<open>'wrong'\<close>, together with
  the updated globals.  The detection line is fixed only after the length test, and only
  for the configured flow type; the comparison against it reads the value just fixed.
\<close>

definition determine_direction ::
  "config \<Rightarrow> int \<Rightarrow> point \<Rightarrow> int \<Rightarrow> int \<Rightarrow> state \<Rightarrow> string option \<times> state" where
  "determine_direction cfg object_id current_centroid frame_width frame_height s =
     (let old_history =
            (case object_centroid_history s object_id of None \<Rightarrow> [] | Some h \<Rightarrow> h);
          history = deque_append (HISTORY_BUFFER_SIZE cfg) old_history current_centroid;
          s1 = s\<lparr>object_centroid_history :=
                   (object_centroid_history s)(object_id \<mapsto> history)\<rparr>
      in if length history < 2 then (None, s1)
         else
           let old_centroid = hd history;
               current = last history;
               dx = fst current - fst old_centroid;
               dy = snd current - snd old_centroid;
               s2 = (if FLOW_TYPE cfg = ''vertical_flow'' \<and> DETECTION_LINE_Y s1 = None
                     then s1\<lparr>DETECTION_LINE_Y := Some (int_half frame_height)\<rparr>
                     else if FLOW_TYPE cfg = ''horizontal_flow'' \<and> DETECTION_LINE_X s1 = None
                     then s1\<lparr>DETECTION_LINE_X := Some (int_half frame_width)\<rparr>
                     else s1)
           in if FLOW_TYPE cfg = ''vertical_flow'' then
                (if \<bar>dy\<bar> > MIN_MOVEMENT_PIXELS cfg then
                   (let direction = (if dy > 0 then ''down'' else ''up'');
                        line_y = (case DETECTION_LINE_Y s2 of Some l \<Rightarrow> l
                                  | None \<Rightarrow> int_half frame_height);
                        is_wrong_way =
                          (if EXPECTED_DIRECTION cfg = ''down'' \<and> direction = ''up''
                              \<and> snd current < line_y then True
                           else if EXPECTED_DIRECTION cfg = ''up'' \<and> direction = ''down''
                              \<and> snd current > line_y then True
                           else False)
                    in (Some (if is_wrong_way then ''wrong'' else ''correct''), s2))
                 else (None, s2))
              else if FLOW_TYPE cfg = ''horizontal_flow'' then
                (if \<bar>dx\<bar> > MIN_MOVEMENT_PIXELS cfg then
                   (let direction = (if dx > 0 then ''right'' else ''left'');
                        line_x = (case DETECTION_LINE_X s2 of Some l \<Rightarrow> l
                                  | None \<Rightarrow> int_half frame_width);
                        is_wrong_way =
                          (if EXPECTED_DIRECTION cfg = ''right'' \<and> direction = ''left''
                              \<and> fst current < line_x then True
                           else if EXPECTED_DIRECTION cfg = ''left'' \<and> direction = ''right''
                              \<and> fst current > line_x then True
                           else False)
                    in (Some (if is_wrong_way then ''wrong'' else ''correct''), s2))
                 else (None, s2))
              else (None, s2))"

subsection \<open>The association tracker\<close>

text \<open>One entry of \<^verbatim>\<open>current_frame_detections\<close>, built from a detector box.\<close>

definition make_detection :: "bbox_t \<times> real \<times> int \<Rightarrow> detection" where
  "make_detection b =
     (case b of (xyxy, cf, c) \<Rightarrow>
        \<lparr>bbox = xyxy, centroid = calculate_centroid xyxy, cls = c, conf = cf\<rparr>)"

text \<open>The dictionary stored for a track when it takes its box from a detection.\<close>

definition new_track :: "detection \<Rightarrow> int \<Rightarrow> track" where
  "new_track d frame_idx =
     \<lparr>bbox = bbox d, centroid = centroid d, cls = cls d, last_seen_frame = frame_idx\<rparr>"

text \<open>
  The inner loop over \<^verbatim>\<open>enumerate(current_frame_detections)\<close> for one track: it
  carries \<^verbatim>\<open>(best_match_idx, max_iou)\<close>, skips consumed indices and moves to a
  detection only on a strictly larger IOU.
\<close>

fun best_match :: "int set \<Rightarrow> bbox_t \<Rightarrow> (nat \<times> detection) list \<Rightarrow> int \<times> real \<Rightarrow> int \<times> real" where
  "best_match matched bbox1 [] acc = acc"
| "best_match matched bbox1 ((i, current_det) # rest) (best_match_idx, max_iou) =
     (if int i \<in> matched then best_match matched bbox1 rest (best_match_idx, max_iou)
      else if iou bbox1 (bbox current_det) > max_iou
      then best_match matched bbox1 rest (int i, iou bbox1 (bbox current_det))
      else best_match matched bbox1 rest (best_match_idx, max_iou))"

text \<open>
  The body of the loop over \<^verbatim>\<open>tracked_objects.items()\<close> for one track, on the pair
  \<^verbatim>\<open>(new_tracked_objects, matched_current_indices)\<close>.
\<close>

definition match_track ::
  "int \<Rightarrow> detection list \<Rightarrow> int \<times> track \<Rightarrow> (int \<times> track) list \<times> int set
     \<Rightarrow> (int \<times> track) list \<times> int set" where
  "match_track frame_idx dets item acc =
     (case item of (obj_id, obj_data) \<Rightarrow>
      case acc of (new_tracked_objects, matched) \<Rightarrow>
      case best_match matched (bbox obj_data) (enumerate 0 dets) (- 1, 0) of
        (best_match_idx, max_iou) \<Rightarrow>
          if best_match_idx \<noteq> - 1 \<and> max_iou > 0.3
          then (dict_set new_tracked_objects obj_id
                  (new_track (dets ! nat best_match_idx) frame_idx),
                insert best_match_idx matched)
          else if frame_idx - last_seen_frame obj_data < 5
          then (dict_set new_tracked_objects obj_id obj_data, matched)
          else (new_tracked_objects, matched))"

fun match_tracks ::
  "int \<Rightarrow> detection list \<Rightarrow> (int \<times> track) list \<Rightarrow> (int \<times> track) list \<times> int set
     \<Rightarrow> (int \<times> track) list \<times> int set" where
  "match_tracks frame_idx dets [] acc = acc"
| "match_tracks frame_idx dets (item # rest) acc =
     match_tracks frame_idx dets rest (match_track frame_idx dets item acc)"

text \<open>
  The second loop over the detections: every index that is not in
  \<^verbatim>\<open>matched_current_indices\<close> is stored under \<^verbatim>\<open>next_object_id\<close>, which is then
  incremented.
\<close>

fun add_new ::
  "int \<Rightarrow> int set \<Rightarrow> (nat \<times> detection) list \<Rightarrow> (int \<times> track) list \<times> int
     \<Rightarrow> (int \<times> track) list \<times> int" where
  "add_new frame_idx matched [] acc = acc"
| "add_new frame_idx matched ((i, current_det) # rest) (new_tracked_objects, next_id) =
     (if int i \<notin> matched
      then add_new frame_idx matched rest
             (dict_set new_tracked_objects next_id (new_track current_det frame_idx), next_id + 1)
      else add_new frame_idx matched rest (new_tracked_objects, next_id))"

text \<open>The association part of one frame: both loops, then the assignment to \<^verbatim>\<open>tracked_objects\<close>.\<close>

definition associate :: "int \<Rightarrow> detection list \<Rightarrow> state \<Rightarrow> state" where
  "associate frame_idx dets s =
     (case match_tracks frame_idx dets (tracked_objects s) ([], {}) of
        (new_tracked_objects, matched) \<Rightarrow>
      case add_new frame_idx matched (enumerate 0 dets) (new_tracked_objects, next_object_id s) of
        (new_tracked_objects', next_id) \<Rightarrow>
          s\<lparr>next_object_id := next_id, tracked_objects := new_tracked_objects'\<rparr>)"

subsection \<open>The frame loop\<close>

text \<open>
  What is drawn for one track in one frame: its identity, its data and the entry of
  \<^verbatim>\<open>object_direction_status\<close> read for the label (\<open>None\<close> when there is no entry).
\<close>

type_synonym annotation = "int \<times> track \<times> string option"

text \<open>
  The loop that classifies the tracks of the frame.  A result is stored only when it is
  truthy, that is, a non-empty string.
\<close>

fun classify_tracks ::
  "config \<Rightarrow> int \<Rightarrow> int \<Rightarrow> (int \<times> track) list \<Rightarrow> state \<Rightarrow> annotation list \<times> state" where
  "classify_tracks cfg frame_width frame_height [] s = ([], s)"
| "classify_tracks cfg frame_width frame_height ((obj_id, obj_data) # rest) s =
     (case determine_direction cfg obj_id (centroid obj_data) frame_width frame_height s of
        (direction_status, s1) \<Rightarrow>
          let s2 = (case direction_status of
                      None \<Rightarrow> s1
                    | Some v \<Rightarrow>
                        if v \<noteq> [] then
                          s1\<lparr>object_direction_status := (object_direction_status s1)(obj_id \<mapsto> v)\<rparr>
                        else s1)
          in case classify_tracks cfg frame_width frame_height rest s2 of
               (anns, s3) \<Rightarrow> ((obj_id, obj_data, object_direction_status s2 obj_id) # anns, s3))"

definition process_frame ::
  "config \<Rightarrow> int \<Rightarrow> int \<Rightarrow> int \<Rightarrow> (bbox_t \<times> real \<times> int) list \<Rightarrow> state
     \<Rightarrow> annotation list \<times> state" where
  "process_frame cfg frame_width frame_height frame_idx boxes s =
     (let s1 = associate frame_idx (map make_detection boxes) s
      in classify_tracks cfg frame_width frame_height (tracked_objects s1) s1)"

text \<open>The loop over the frames that were read, numbered from \<open>frame_idx\<close> upwards.\<close>

fun process_frames ::
  "config \<Rightarrow> int \<Rightarrow> int \<Rightarrow> int \<Rightarrow> (bbox_t \<times> real \<times> int) list list \<Rightarrow> state
     \<Rightarrow> annotation list list \<times> state" where
  "process_frames cfg frame_width frame_height frame_idx [] s = ([], s)"
| "process_frames cfg frame_width frame_height frame_idx (boxes # rest) s =
     (case process_frame cfg frame_width frame_height frame_idx boxes s of
        (anns, s1) \<Rightarrow>
          case process_frames cfg frame_width frame_height (frame_idx + 1) rest s1 of
            (out, s2) \<Rightarrow> (anns # out, s2))"

definition process_video_for_wrong_way ::
  "config \<Rightarrow> int \<Rightarrow> int \<Rightarrow> (bbox_t \<times> real \<times> int) list list \<Rightarrow> annotation list list \<times> state" where
  "process_video_for_wrong_way cfg frame_width frame_height frames =
     process_frames cfg frame_width frame_height 0 frames initial_state"

subsection \<open>Vocabulary for the classifier's properties\<close>

text \<open>
  The history of \<open>object_id\<close> right after the append that opens
  \<^verbatim>\<open>determine_direction\<close>.
\<close>

definition history_after :: "config \<Rightarrow> state \<Rightarrow> int \<Rightarrow> point \<Rightarrow> point list" where
  "history_after cfg s object_id c =
     deque_append (HISTORY_BUFFER_SIZE cfg)
       (case object_centroid_history s object_id of None \<Rightarrow> [] | Some h \<Rightarrow> h) c"

definition valid_flow :: "config \<Rightarrow> bool" where
  "valid_flow cfg = (FLOW_TYPE cfg = ''vertical_flow'' \<or> FLOW_TYPE cfg = ''horizontal_flow'')"

text \<open>
  The specification's words, written out independently of the code: the displacement of
  the newest entry from the oldest along the flow axis, the raw direction as the sign of
  that displacement, the opposite of a direction, the boundary line in force for a call
  and the side of the line on which the expected flow originates.
\<close>

definition displacement :: "config \<Rightarrow> point list \<Rightarrow> int" where
  "displacement cfg hist =
     (if FLOW_TYPE cfg = ''horizontal_flow'' then fst (last hist) - fst (hd hist)
      else snd (last hist) - snd (hd hist))"

definition raw_direction :: "config \<Rightarrow> int \<Rightarrow> string option" where
  "raw_direction cfg d =
     (if d = 0 then None
      else if FLOW_TYPE cfg = ''horizontal_flow'' then Some (if 0 < d then ''right'' else ''left'')
      else Some (if 0 < d then ''down'' else ''up''))"

definition opposite :: "string \<Rightarrow> string option" where
  "opposite e =
     (if e = ''down'' then Some ''up'' else if e = ''up'' then Some ''down''
      else if e = ''right'' then Some ''left'' else if e = ''left'' then Some ''right''
      else None)"

definition boundary_line :: "config \<Rightarrow> int \<Rightarrow> int \<Rightarrow> state \<Rightarrow> int" where
  "boundary_line cfg frame_width frame_height s =
     (if FLOW_TYPE cfg = ''horizontal_flow''
      then (case DETECTION_LINE_X s of Some l \<Rightarrow> l | None \<Rightarrow> int_half frame_width)
      else (case DETECTION_LINE_Y s of Some l \<Rightarrow> l | None \<Rightarrow> int_half frame_height))"

definition on_origin_side :: "string \<Rightarrow> point \<Rightarrow> int \<Rightarrow> bool" where
  "on_origin_side e c line =
     (if e = ''down'' then snd c < line else if e = ''up'' then snd c > line
      else if e = ''right'' then fst c < line else if e = ''left'' then fst c > line
      else False)"

definition wrong_way_rule :: "config \<Rightarrow> point list \<Rightarrow> int \<Rightarrow> string" where
  "wrong_way_rule cfg hist line =
     (if raw_direction cfg (displacement cfg hist) \<noteq> None
         \<and> raw_direction cfg (displacement cfg hist) = opposite (EXPECTED_DIRECTION cfg)
         \<and> on_origin_side (EXPECTED_DIRECTION cfg) (last hist) line
      then ''wrong'' else ''correct'')"

text \<open>Every stored history respects the configured capacity.\<close>

definition history_bounded :: "config \<Rightarrow> state \<Rightarrow> bool" where
  "history_bounded cfg s =
     (\<forall>k hist. object_centroid_history s k = Some hist \<longrightarrow> length hist \<le> HISTORY_BUFFER_SIZE cfg)"

text \<open>
  The configuration of the worked scenarios (vertical flow, traffic expected to move
  down, capacity 10, threshold 10) and a state in which one track already has a history.
\<close>

definition scenario_config :: config where
  "scenario_config =
     \<lparr>HISTORY_BUFFER_SIZE = 10, MIN_MOVEMENT_PIXELS = 10,
      FLOW_TYPE = ''vertical_flow'', EXPECTED_DIRECTION = ''down''\<rparr>"

definition with_history :: "int \<Rightarrow> point list \<Rightarrow> state \<Rightarrow> state" where
  "with_history k hist s = s\<lparr>object_centroid_history := (object_centroid_history s)(k \<mapsto> hist)\<rparr>"

subsection \<open>Vocabulary for the tracker's properties\<close>

text \<open>The three areas that the IOU computation combines.\<close>

definition box_area :: "bbox_t \<Rightarrow> real" where
  "box_area b = (case b of (x1, y1, x2, y2) \<Rightarrow> (x2 - x1) * (y2 - y1))"

definition intersection_area :: "bbox_t \<Rightarrow> bbox_t \<Rightarrow> real" where
  "intersection_area bbox1 bbox2 =
     (case bbox1 of (a0, a1, a2, a3) \<Rightarrow>
      case bbox2 of (b0, b1, b2, b3) \<Rightarrow>
        max 0 (min a2 b2 - max a0 b0) * max 0 (min a3 b3 - max a1 b1))"

definition union_area :: "bbox_t \<Rightarrow> bbox_t \<Rightarrow> real" where
  "union_area bbox1 bbox2 = box_area bbox1 + box_area bbox2 - intersection_area bbox1 bbox2"

text \<open>The identities of the live tracks, in iteration order.\<close>

definition live_ids :: "state \<Rightarrow> int list" where
  "live_ids s = map fst (tracked_objects s)"

text \<open>The live tracks as pairs of identity and box, in iteration order.\<close>

definition live_boxes :: "state \<Rightarrow> (int \<times> bbox_t) list" where
  "live_boxes s = map (\<lambda>(k, t). (k, bbox t)) (tracked_objects s)"

text \<open>Every live identity was handed out by the counter, and no identity is live twice.\<close>

definition tracker_inv :: "state \<Rightarrow> bool" where
  "tracker_inv s =
     (distinct (live_ids s) \<and> (\<forall>k \<in> set (live_ids s). k < next_object_id s))"

text \<open>
  A log of the association loop: the pairs (track identity, detection index) of the
  matches that succeed, in the order in which they are made.  It repeats the test of
  \<open>match_track\<close> and records nothing else.
\<close>

fun claims :: "detection list \<Rightarrow> (int \<times> track) list \<Rightarrow> int set \<Rightarrow> (int \<times> int) list" where
  "claims dets [] matched = []"
| "claims dets ((obj_id, obj_data) # rest) matched =
     (case best_match matched (bbox obj_data) (enumerate 0 dets) (- 1, 0) of
        (best_match_idx, max_iou) \<Rightarrow>
          if best_match_idx \<noteq> - 1 \<and> max_iou > 0.3
          then (obj_id, best_match_idx) # claims dets rest (insert best_match_idx matched)
          else claims dets rest matched)"

text \<open>
  Detection \<open>i\<close> is the candidate that a track with box \<open>b\<close> picks when the indices in
  \<open>matched\<close> are consumed: it is not consumed, every unconsumed detection before it has a
  strictly smaller IOU with \<open>b\<close> and none after it has a larger one.
\<close>

definition best_candidate :: "int set \<Rightarrow> bbox_t \<Rightarrow> detection list \<Rightarrow> nat \<Rightarrow> bool" where
  "best_candidate matched b dets i =
     (i < length dets \<and> int i \<notin> matched \<and>
      (\<forall>j < length dets. int j \<notin> matched \<longrightarrow>
         (j < i \<longrightarrow> iou b (bbox (dets ! j)) < iou b (bbox (dets ! i))) \<and>
         (i < j \<longrightarrow> iou b (bbox (dets ! j)) \<le> iou b (bbox (dets ! i)))))"

text \<open>The detections whose index is not in \<open>matched\<close>, in order.\<close>

definition unconsumed :: "int set \<Rightarrow> detection list \<Rightarrow> detection list" where
  "unconsumed matched dets = map snd (filter (\<lambda>(i, d). int i \<notin> matched) (enumerate 0 dets))"

text \<open>The tracks created from a list of detections when the counter stands at \<open>n\<close>.\<close>

fun spawned :: "int \<Rightarrow> int \<Rightarrow> detection list \<Rightarrow> (int \<times> track) list" where
  "spawned frame_idx n [] = []"
| "spawned frame_idx n (d # ds) = (n, new_track d frame_idx) # spawned frame_idx (n + 1) ds"

text \<open>
  A detection with a given box, a track that took its box from such a detection at a given
  frame, and a state with given live tracks and counter.
\<close>

definition det_of :: "bbox_t \<Rightarrow> detection" where
  "det_of b = make_detection (b, 0.9, 2)"

definition track_at :: "bbox_t \<Rightarrow> int \<Rightarrow> track" where
  "track_at b frame_idx = new_track (det_of b) frame_idx"

definition with_tracks :: "(int \<times> track) list \<Rightarrow> int \<Rightarrow> state \<Rightarrow> state" where
  "with_tracks ts n s = s\<lparr>next_object_id := n, tracked_objects := ts\<rparr>"

section \<open>Properties of the direction classifier\<close>

subsection \<open>What one call returns\<close>

lemma dd_fst_vertical:
  "FLOW_TYPE cfg = ''vertical_flow'' \<Longrightarrow>
   fst (determine_direction cfg oid c w h s) =
     (let hist = history_after cfg s oid c; dy = snd (last hist) - snd (hd hist);
          line = boundary_line cfg w h s
      in if length hist < 2 \<or> \<not> \<bar>dy\<bar> > MIN_MOVEMENT_PIXELS cfg then None
         else Some (if (EXPECTED_DIRECTION cfg = ''down'' \<and> \<not> dy > 0 \<and> snd (last hist) < line)
                      \<or> (EXPECTED_DIRECTION cfg = ''up'' \<and> dy > 0 \<and> snd (last hist) > line)
                    then ''wrong'' else ''correct''))"
  by (auto simp: determine_direction_def history_after_def boundary_line_def Let_def split: option.splits)

lemma dd_fst_horizontal:
  "FLOW_TYPE cfg = ''horizontal_flow'' \<Longrightarrow>
   fst (determine_direction cfg oid c w h s) =
     (let hist = history_after cfg s oid c; dx = fst (last hist) - fst (hd hist);
          line = boundary_line cfg w h s
      in if length hist < 2 \<or> \<not> \<bar>dx\<bar> > MIN_MOVEMENT_PIXELS cfg then None
         else Some (if (EXPECTED_DIRECTION cfg = ''right'' \<and> \<not> dx > 0 \<and> fst (last hist) < line)
                      \<or> (EXPECTED_DIRECTION cfg = ''left'' \<and> dx > 0 \<and> fst (last hist) > line)
                    then ''wrong'' else ''correct''))"
  by (auto simp: determine_direction_def history_after_def boundary_line_def Let_def split: option.splits)

lemma dd_fst_other:
  "\<not> valid_flow cfg \<Longrightarrow> fst (determine_direction cfg oid c w h s) = None"
  by (auto simp: determine_direction_def valid_flow_def Let_def)

lemma dd_history:
  "object_centroid_history (snd (determine_direction cfg oid c w h s)) =
     (object_centroid_history s)(oid \<mapsto> history_after cfg s oid c)"
  by (simp add: determine_direction_def history_after_def Let_def)

lemma length_deque_append:
  "length xs \<le> m \<Longrightarrow> length (deque_append m xs x) \<le> m"
  by (simp add: deque_append_def Let_def)

lemma deque_append_cases:
  "deque_append m xs x = (if length xs < m then xs @ [x] else tl (xs @ [x]))"
  by (auto simp: deque_append_def Let_def)

lemma dd_bounded:
  "history_bounded cfg s \<Longrightarrow> history_bounded cfg (snd (determine_direction cfg oid c w h s))"
  unfolding history_bounded_def dd_history history_after_def
  by (auto intro!: length_deque_append split: option.splits)

lemma classify_tracks_bounded:
  "history_bounded cfg s \<Longrightarrow> history_bounded cfg (snd (classify_tracks cfg w h ts s))"
proof (induction ts arbitrary: s)
  case Nil
  then show ?case by simp
next
  case (Cons t ts)
  obtain oid od where t: "t = (oid, od)" by (cases t)
  obtain r s1 where dd: "determine_direction cfg oid (centroid od) w h s = (r, s1)"
    by (cases "determine_direction cfg oid (centroid od) w h s")
  have b1: "history_bounded cfg s1"
    using dd_bounded [OF Cons.prems, of oid "centroid od" w h] dd by simp
  define s2 where "s2 = (case r of None \<Rightarrow> s1
        | Some v \<Rightarrow> if v \<noteq> [] then
             s1\<lparr>object_direction_status := (object_direction_status s1)(oid \<mapsto> v)\<rparr> else s1)"
  have "history_bounded cfg s2"
    using b1 by (simp add: s2_def history_bounded_def split: option.splits)
  from Cons.IH [OF this] show ?case
    by (auto simp: t dd s2_def [symmetric] split: prod.splits)
qed

lemma associate_history [simp]:
  "object_centroid_history (associate i dets s) = object_centroid_history s"
  by (simp add: associate_def split: prod.splits)

lemma process_frame_bounded:
  "history_bounded cfg s \<Longrightarrow> history_bounded cfg (snd (process_frame cfg w h i boxes s))"
  unfolding process_frame_def Let_def
  by (rule classify_tracks_bounded) (simp add: history_bounded_def)

lemma process_frames_bounded:
  "history_bounded cfg s \<Longrightarrow> history_bounded cfg (snd (process_frames cfg w h i frames s))"
proof (induction frames arbitrary: i s)
  case Nil
  then show ?case by simp
next
  case (Cons boxes frames)
  from process_frame_bounded [OF Cons.prems, of w h i boxes]
  have "history_bounded cfg (snd (process_frames cfg w h (i + 1) frames
            (snd (process_frame cfg w h i boxes s))))"
    by (rule Cons.IH)
  then show ?case by (auto split: prod.splits)
qed

lemma initial_bounded: "history_bounded cfg initial_state"
  by (simp add: history_bounded_def initial_state_def)

subsection \<open>The wrong-way rule\<close>

text \<open>
  Claim C1.  Take a valid flow type and a non-negative threshold.  A call decides (returns
  something other than \<^verbatim>\<open>None\<close>) exactly when the history after the append has at
  least two entries and the displacement along the flow axis is larger than
  \<^verbatim>\<open>MIN_MOVEMENT_PIXELS\<close>; and whenever it decides, the verdict is \<^verbatim>\<open>'wrong'\<close> if
  the raw direction is the opposite of the expected direction and the current centroid is
  on the origin side of the boundary line, and \<^verbatim>\<open>'correct'\<close> in every other case.
  With vertical flow, expected direction down, a 400 by 300 frame and threshold 10, the
  history (50,200), (50,150), (50,90) gives \<^verbatim>\<open>'wrong'\<close> and the history (50,50),
  (50,110), (50,180) gives \<^verbatim>\<open>'correct'\<close>.
\<close>

theorem wrong_way_rule_refined:
  "(valid_flow cfg \<and> 0 \<le> MIN_MOVEMENT_PIXELS cfg \<longrightarrow>
      (fst (determine_direction cfg oid c w h s) \<noteq> None \<longleftrightarrow>
         2 \<le> length (history_after cfg s oid c) \<and>
         MIN_MOVEMENT_PIXELS cfg < \<bar>displacement cfg (history_after cfg s oid c)\<bar>) \<and>
      (fst (determine_direction cfg oid c w h s) \<noteq> None \<longrightarrow>
         fst (determine_direction cfg oid c w h s) =
           Some (wrong_way_rule cfg (history_after cfg s oid c) (boundary_line cfg w h s)))) \<and>
   fst (determine_direction scenario_config 7 (50, 90) 400 300
          (with_history 7 [(50, 200), (50, 150)] initial_state)) = Some ''wrong'' \<and>
   fst (determine_direction scenario_config 7 (50, 180) 400 300
          (with_history 7 [(50, 50), (50, 110)] initial_state)) = Some ''correct''"
proof -
  have gen: "(fst (determine_direction cfg oid c w h s) \<noteq> None \<longleftrightarrow>
         2 \<le> length (history_after cfg s oid c) \<and>
         MIN_MOVEMENT_PIXELS cfg < \<bar>displacement cfg (history_after cfg s oid c)\<bar>) \<and>
      (fst (determine_direction cfg oid c w h s) \<noteq> None \<longrightarrow>
         fst (determine_direction cfg oid c w h s) =
           Some (wrong_way_rule cfg (history_after cfg s oid c) (boundary_line cfg w h s)))"
    if v: "valid_flow cfg" and m: "0 \<le> MIN_MOVEMENT_PIXELS cfg"
  proof -
    from v consider "FLOW_TYPE cfg = ''vertical_flow''" | "FLOW_TYPE cfg = ''horizontal_flow''"
      by (auto simp: valid_flow_def)
    then show ?thesis
    proof cases
      case 1
      with m show ?thesis
        by (auto simp: dd_fst_vertical displacement_def wrong_way_rule_def raw_direction_def
            opposite_def on_origin_side_def Let_def)
    next
      case 2
      with m show ?thesis
        by (auto simp: dd_fst_horizontal displacement_def wrong_way_rule_def raw_direction_def
            opposite_def on_origin_side_def Let_def)
    qed
  qed
  have sc1: "fst (determine_direction scenario_config 7 (50, 90) 400 300
          (with_history 7 [(50, 200), (50, 150)] initial_state)) = Some ''wrong''"
    by (simp add: determine_direction_def scenario_config_def with_history_def initial_state_def
        deque_append_def int_half_def py_int_def Let_def)
  have sc2: "fst (determine_direction scenario_config 7 (50, 180) 400 300
          (with_history 7 [(50, 50), (50, 110)] initial_state)) = Some ''correct''"
    by (simp add: determine_direction_def scenario_config_def with_history_def initial_state_def
        deque_append_def int_half_def py_int_def Let_def)
  from gen sc1 sc2 show ?thesis by blast
qed

theorem wrong_way_rule_refined_witness:
  "valid_flow scenario_config \<and> 0 \<le> MIN_MOVEMENT_PIXELS scenario_config \<and>
   fst (determine_direction scenario_config 7 (50, 90) 400 300
          (with_history 7 [(50, 200), (50, 150)] initial_state)) \<noteq> None \<and>
   fst (determine_direction scenario_config 7 (50, 90) 400 300
          (with_history 7 [(50, 200), (50, 150)] initial_state)) =
     Some (wrong_way_rule scenario_config
             (history_after scenario_config (with_history 7 [(50, 200), (50, 150)] initial_state)
                7 (50, 90))
             (boundary_line scenario_config 400 300
                (with_history 7 [(50, 200), (50, 150)] initial_state)))"
proof -
  have v: "valid_flow scenario_config \<and> 0 \<le> MIN_MOVEMENT_PIXELS scenario_config"
    by (simp add: valid_flow_def scenario_config_def)
  have d: "2 \<le> length (history_after scenario_config
                (with_history 7 [(50, 200), (50, 150)] initial_state) 7 (50, 90)) \<and>
           MIN_MOVEMENT_PIXELS scenario_config
             < \<bar>displacement scenario_config (history_after scenario_config
                (with_history 7 [(50, 200), (50, 150)] initial_state) 7 (50, 90))\<bar>"
    by (simp add: history_after_def displacement_def scenario_config_def with_history_def
        initial_state_def deque_append_def Let_def)
  show ?thesis
    using v d wrong_way_rule_refined [of scenario_config 7 "(50, 90)" 400 300
        "with_history 7 [(50, 200), (50, 150)] initial_state"]
    by blast
qed

subsection \<open>Abstaining\<close>

text \<open>
  Claim C9.  The classifier returns \<^verbatim>\<open>None\<close> whenever the history after the append
  has fewer than two entries, whatever the centroid, and whenever the absolute displacement
  along the flow axis is strictly below \<^verbatim>\<open>MIN_MOVEMENT_PIXELS\<close>, whatever the length
  of the history.
\<close>

theorem classifier_abstains:
  "(length (history_after cfg s oid c) < 2 \<longrightarrow>
      fst (determine_direction cfg oid c w h s) = None) \<and>
   (\<bar>displacement cfg (history_after cfg s oid c)\<bar> < MIN_MOVEMENT_PIXELS cfg \<longrightarrow>
      fst (determine_direction cfg oid c w h s) = None)"
proof (cases "valid_flow cfg")
  case False
  then show ?thesis by (simp add: dd_fst_other)
next
  case True
  then consider "FLOW_TYPE cfg = ''vertical_flow''" | "FLOW_TYPE cfg = ''horizontal_flow''"
    by (auto simp: valid_flow_def)
  then show ?thesis
  proof cases
    case 1
    then show ?thesis by (simp add: dd_fst_vertical displacement_def Let_def)
  next
    case 2
    then show ?thesis by (simp add: dd_fst_horizontal displacement_def Let_def)
  qed
qed

theorem classifier_abstains_witness:
  "length (history_after scenario_config initial_state 7 (50, 90)) < 2 \<and>
   fst (determine_direction scenario_config 7 (50, 90) 400 300 initial_state) = None \<and>
   \<bar>displacement (scenario_config\<lparr>HISTORY_BUFFER_SIZE := 2\<rparr>)
      (history_after (scenario_config\<lparr>HISTORY_BUFFER_SIZE := 2\<rparr>)
         (with_history 7 [(50, 200), (50, 150)] initial_state) 7 (50, 159))\<bar>
     < MIN_MOVEMENT_PIXELS (scenario_config\<lparr>HISTORY_BUFFER_SIZE := 2\<rparr>) \<and>
   fst (determine_direction (scenario_config\<lparr>HISTORY_BUFFER_SIZE := 2\<rparr>) 7 (50, 159) 400 300
          (with_history 7 [(50, 200), (50, 150)] initial_state)) = None"
proof -
  have a: "length (history_after scenario_config initial_state 7 (50, 90)) < 2"
    by (simp add: history_after_def scenario_config_def initial_state_def deque_append_def)
  have b: "\<bar>displacement (scenario_config\<lparr>HISTORY_BUFFER_SIZE := 2\<rparr>)
      (history_after (scenario_config\<lparr>HISTORY_BUFFER_SIZE := 2\<rparr>)
         (with_history 7 [(50, 200), (50, 150)] initial_state) 7 (50, 159))\<bar>
     < MIN_MOVEMENT_PIXELS (scenario_config\<lparr>HISTORY_BUFFER_SIZE := 2\<rparr>)"
    by (simp add: history_after_def displacement_def scenario_config_def with_history_def
        initial_state_def deque_append_def Let_def)
  show ?thesis
    using a b
      classifier_abstains [of scenario_config initial_state 7 "(50, 90)" 400 300]
      classifier_abstains [of "scenario_config\<lparr>HISTORY_BUFFER_SIZE := 2\<rparr>"
        "with_history 7 [(50, 200), (50, 150)] initial_state" 7 "(50, 159)" 400 300]
    by blast
qed

text \<open>
  Claim C3.  Whenever the history after the append has at least two entries and the
  absolute displacement along the flow axis is not below \<^verbatim>\<open>MIN_MOVEMENT_PIXELS\<close>,
  equality included, the call is to return \<^verbatim>\<open>'correct'\<close> or \<^verbatim>\<open>'wrong'\<close>.  The
  constant is documented as the minimum pixel movement required to consider a direction,
  but the comparison in the code is strict.  With threshold 10, a history (50,100) and the
  current centroid (50,110), the history after the append has two entries, the
  displacement equals the threshold, and the call returns \<^verbatim>\<open>None\<close>.
\<close>

theorem threshold_equality_abstains:
  "length (history_after scenario_config (with_history 7 [(50, 100)] initial_state) 7 (50, 110)) = 2 \<and>
   \<bar>displacement scenario_config
      (history_after scenario_config (with_history 7 [(50, 100)] initial_state) 7 (50, 110))\<bar>
     = MIN_MOVEMENT_PIXELS scenario_config \<and>
   fst (determine_direction scenario_config 7 (50, 110) 400 300
          (with_history 7 [(50, 100)] initial_state)) = None"
  by (simp add: determine_direction_def scenario_config_def with_history_def initial_state_def
      history_after_def displacement_def deque_append_def int_half_def py_int_def Let_def)

subsection \<open>The bounded history\<close>

text \<open>
  Claim C7.  The histories never grow beyond \<^verbatim>\<open>HISTORY_BUFFER_SIZE\<close>: the bound holds
  at the start of a run, every call of the classifier preserves it, and so does any number
  of frames of the frame loop.  A call appends the centroid while the history is shorter
  than the capacity and otherwise appends it and drops the oldest entry.
\<close>

theorem history_never_exceeds_capacity:
  "history_bounded cfg initial_state \<and>
   (history_bounded cfg s \<longrightarrow>
      history_bounded cfg (snd (determine_direction cfg oid c w h s)) \<and>
      history_bounded cfg (snd (process_frames cfg w h i frames s)) \<and>
      object_centroid_history (snd (determine_direction cfg oid c w h s)) oid =
        Some (let old = (case object_centroid_history s oid of None \<Rightarrow> [] | Some hist \<Rightarrow> hist)
              in if length old < HISTORY_BUFFER_SIZE cfg then old @ [c] else tl (old @ [c])))"
  using dd_bounded [of cfg s oid c w h] process_frames_bounded [of cfg s w h i frames]
  by (simp add: initial_bounded dd_history history_after_def deque_append_cases Let_def)

theorem history_never_exceeds_capacity_witness:
  "history_bounded (scenario_config\<lparr>HISTORY_BUFFER_SIZE := 2\<rparr>)
      (with_history 7 [(50, 200), (50, 150)] initial_state) \<and>
   object_centroid_history
     (snd (determine_direction (scenario_config\<lparr>HISTORY_BUFFER_SIZE := 2\<rparr>) 7 (50, 90) 400 300
        (with_history 7 [(50, 200), (50, 150)] initial_state))) 7 = Some [(50, 150), (50, 90)] \<and>
   history_bounded (scenario_config\<lparr>HISTORY_BUFFER_SIZE := 2\<rparr>)
     (snd (determine_direction (scenario_config\<lparr>HISTORY_BUFFER_SIZE := 2\<rparr>) 7 (50, 90) 400 300
        (with_history 7 [(50, 200), (50, 150)] initial_state)))"
proof -
  have b: "history_bounded (scenario_config\<lparr>HISTORY_BUFFER_SIZE := 2\<rparr>)
      (with_history 7 [(50, 200), (50, 150)] initial_state)"
    by (simp add: history_bounded_def with_history_def initial_state_def scenario_config_def)
  show ?thesis
    using b history_never_exceeds_capacity [of "scenario_config\<lparr>HISTORY_BUFFER_SIZE := 2\<rparr>"
        "with_history 7 [(50, 200), (50, 150)] initial_state" 7 "(50, 90)" 400 300 0 "[]"]
    by (simp add: with_history_def initial_state_def scenario_config_def)
qed
section \<open>Properties of the association tracker\<close>

subsection \<open>Intersection over union\<close>

lemma iou_unfold:
  "iou b1 b2 = (if union_area b1 b2 > 0 then intersection_area b1 b2 / union_area b1 b2 else 0)"
  by (cases b1; cases b2)
    (simp only: iou_def Let_def union_area_def intersection_area_def box_area_def prod.case)

lemma intersection_area_nonneg: "0 \<le> intersection_area b1 b2"
  by (cases b1; cases b2) (simp add: intersection_area_def)

lemma degenerate_overlap:
  fixes a c c' :: real
  shows "max 0 (min a c - max a c') = 0" and "max 0 (min c a - max c' a) = 0"
  by (simp_all add: max_def min_def)

lemma intersection_area_zero_area:
  assumes "box_area b1 = 0 \<or> box_area b2 = 0"
  shows "intersection_area b1 b2 = 0"
proof -
  obtain a0 a1 a2 a3 where b1: "b1 = (a0, a1, a2, a3)" by (cases b1)
  obtain c0 c1 c2 c3 where b2: "b2 = (c0, c1, c2, c3)" by (cases b2)
  from assms consider "a2 = a0" | "a3 = a1" | "c2 = c0" | "c3 = c1"
    by (auto simp: b1 b2 box_area_def)
  then show ?thesis
    by cases (simp_all add: b1 b2 intersection_area_def degenerate_overlap)
qed

lemma intersection_le_area1: "intersection_area b1 b2 \<le> max 0 (box_area b1)"
proof -
  obtain a0 a1 a2 a3 where b1: "b1 = (a0, a1, a2, a3)" by (cases b1)
  obtain c0 c1 c2 c3 where b2: "b2 = (c0, c1, c2, c3)" by (cases b2)
  define ow where "ow = max 0 (min a2 c2 - max a0 c0)"
  define oh where "oh = max 0 (min a3 c3 - max a1 c1)"
  have i: "intersection_area b1 b2 = ow * oh"
    by (simp add: b1 b2 intersection_area_def ow_def oh_def)
  show ?thesis
  proof (cases "0 < ow \<and> 0 < oh")
    case True
    then have w: "ow \<le> a2 - a0" and h: "oh \<le> a3 - a1"
      by (auto simp: ow_def oh_def max_def min_def split: if_splits)
    from True w h have "ow * oh \<le> (a2 - a0) * (a3 - a1)"
      by (intro mult_mono) auto
    then show ?thesis using i by (simp add: b1 box_area_def max_def)
  next
    case False
    moreover have "0 \<le> ow" "0 \<le> oh" by (simp_all add: ow_def oh_def)
    ultimately have "ow * oh = 0" by auto
    then show ?thesis using i by auto
  qed
qed

lemma intersection_area_commute: "intersection_area b1 b2 = intersection_area b2 b1"
  by (cases b1; cases b2) (simp add: intersection_area_def max.commute min.commute)

lemma intersection_le_area2: "intersection_area b1 b2 \<le> max 0 (box_area b2)"
  using intersection_le_area1 [of b2 b1] by (simp add: intersection_area_commute)

lemma iou_nonneg: "0 \<le> iou b1 b2"
  by (simp add: iou_unfold intersection_area_nonneg)

lemma iou_le_one: "iou b1 b2 \<le> 1"
proof (cases "0 < intersection_area b1 b2")
  case True
  with intersection_le_area1 [of b1 b2] intersection_le_area2 [of b1 b2]
  have "intersection_area b1 b2 \<le> box_area b1" "intersection_area b1 b2 \<le> box_area b2"
    by (auto simp: max_def split: if_splits)
  then have "intersection_area b1 b2 \<le> union_area b1 b2"
    by (simp add: union_area_def)
  then show ?thesis by (simp add: iou_unfold)
next
  case False
  with intersection_area_nonneg [of b1 b2] have "intersection_area b1 b2 = 0" by simp
  then show ?thesis by (simp add: iou_unfold)
qed

lemma iou_zero_area: "box_area b1 = 0 \<or> box_area b2 = 0 \<Longrightarrow> iou b1 b2 = 0"
  by (simp add: iou_unfold intersection_area_zero_area)

subsection \<open>The search for the best detection\<close>

lemma best_match_result:
  "best_match M b eds (k0, v0) = (k, v) \<Longrightarrow>
     (k = k0 \<and> v = v0) \<or>
     (\<exists>(i, d) \<in> set eds. k = int i \<and> int i \<notin> M \<and> v = iou b (bbox d) \<and> v0 < v)"
proof (induction eds arbitrary: k0 v0)
  case Nil
  then show ?case by simp
next
  case (Cons e eds)
  obtain i d where e: "e = (i, d)" by (cases e)
  show ?case
  proof (cases "int i \<notin> M \<and> v0 < iou b (bbox d)")
    case True
    with Cons.prems e have "best_match M b eds (int i, iou b (bbox d)) = (k, v)" by simp
    from Cons.IH [OF this] True show ?thesis by (force simp: e)
  next
    case False
    with Cons.prems e have "best_match M b eds (k0, v0) = (k, v)" by (auto split: if_splits)
    from Cons.IH [OF this] show ?thesis by auto
  qed
qed

lemma best_match_index:
  assumes "best_match M b (enumerate 0 dets) (- 1, 0) = (k, v)"
  shows "(k = - 1 \<and> v = 0) \<or>
         (0 \<le> k \<and> nat k < length dets \<and> k \<notin> M \<and> v = iou b (bbox (dets ! nat k)) \<and> 0 < v)"
  using best_match_result [OF assms] by (auto simp: in_set_enumerate_eq)

lemma best_match_unchanged:
  "\<forall>(i, d) \<in> set eds. int i \<notin> M \<longrightarrow> iou b (bbox d) \<le> v0 \<Longrightarrow>
   best_match M b eds (k0, v0) = (k0, v0)"
  by (induction eds) auto

lemma best_match_argmax:
  assumes "i < length ds" and "int (j + i) \<notin> M" and "v0 < iou b (bbox (ds ! i))"
    and "\<forall>m < length ds. int (j + m) \<notin> M \<longrightarrow>
           (m < i \<longrightarrow> iou b (bbox (ds ! m)) < iou b (bbox (ds ! i))) \<and>
           (i < m \<longrightarrow> iou b (bbox (ds ! m)) \<le> iou b (bbox (ds ! i)))"
  shows "best_match M b (enumerate j ds) (k0, v0) = (int (j + i), iou b (bbox (ds ! i)))"
  using assms
proof (induction ds arbitrary: j i k0 v0)
  case Nil
  then show ?case by simp
next
  case (Cons d ds)
  show ?case
  proof (cases i)
    case 0
    have rest: "\<forall>(i', d') \<in> set (enumerate (Suc j) ds). int i' \<notin> M \<longrightarrow> iou b (bbox d') \<le> iou b (bbox d)"
    proof (clarify)
      fix i' d'
      assume mem: "(i', d') \<in> set (enumerate (Suc j) ds)" and un: "int i' \<notin> M"
      from mem have r: "Suc j \<le> i'" "i' - Suc j < length ds" "ds ! (i' - Suc j) = d'"
        by (auto simp: in_set_enumerate_eq)
      let ?m = "Suc (i' - Suc j)"
      from r have "?m < length (d # ds)" "j + ?m = i'" by simp_all
      with Cons.prems(4) un 0 have "iou b (bbox ((d # ds) ! ?m)) \<le> iou b (bbox ((d # ds) ! i))"
        by (metis zero_less_Suc)
      with r(3) 0 show "iou b (bbox d') \<le> iou b (bbox d)" by simp
    qed
    from Cons.prems(2,3) 0 have "best_match M b (enumerate j (d # ds)) (k0, v0)
        = best_match M b (enumerate (Suc j) ds) (int j, iou b (bbox d))"
      by simp
    also have "\<dots> = (int j, iou b (bbox d))"
      by (rule best_match_unchanged [OF rest])
    finally show ?thesis using 0 by simp
  next
    case (Suc i')
    from Cons.prems(1) Suc have len: "i' < length ds" by simp
    from Cons.prems(2) Suc have un: "int (Suc j + i') \<notin> M" by simp
    have cond: "\<forall>m < length ds. int (Suc j + m) \<notin> M \<longrightarrow>
           (m < i' \<longrightarrow> iou b (bbox (ds ! m)) < iou b (bbox (ds ! i'))) \<and>
           (i' < m \<longrightarrow> iou b (bbox (ds ! m)) \<le> iou b (bbox (ds ! i')))"
    proof (intro allI impI)
      fix m assume m: "m < length ds" and um: "int (Suc j + m) \<notin> M"
      from m have "Suc m < length (d # ds)" by simp
      moreover from um have "int (j + Suc m) \<notin> M" by simp
      ultimately have "(Suc m < i \<longrightarrow> iou b (bbox ((d # ds) ! Suc m)) < iou b (bbox ((d # ds) ! i))) \<and>
           (i < Suc m \<longrightarrow> iou b (bbox ((d # ds) ! Suc m)) \<le> iou b (bbox ((d # ds) ! i)))"
        using Cons.prems(4) by blast
      then show "(m < i' \<longrightarrow> iou b (bbox (ds ! m)) < iou b (bbox (ds ! i'))) \<and>
           (i' < m \<longrightarrow> iou b (bbox (ds ! m)) \<le> iou b (bbox (ds ! i')))"
        by (simp add: Suc)
    qed
    have tgt: "(d # ds) ! i = ds ! i'" by (simp add: Suc)
    show ?thesis
    proof (cases "int j \<notin> M \<and> v0 < iou b (bbox d)")
      case True
      from True Cons.prems(4) Suc have "iou b (bbox d) < iou b (bbox (ds ! i'))"
        by (metis add.right_neutral length_Cons nth_Cons_0 tgt zero_less_Suc)
      from Cons.IH [OF len un this cond, of "int j"] True show ?thesis
        by (simp add: Suc)
    next
      case False
      from Cons.prems(3) have "v0 < iou b (bbox (ds ! i'))" by (simp add: Suc)
      from Cons.IH [OF len un this cond, of k0] False show ?thesis
        by (auto simp: Suc)
    qed
  qed
qed

subsection \<open>Dictionaries in insertion order\<close>

lemma map_of_dict_set: "map_of (dict_set xs k v) = (map_of xs)(k \<mapsto> v)"
  by (induction xs) (auto simp: fun_eq_iff)

lemma keys_dict_set: "fst ` set (dict_set xs k v) = insert k (fst ` set xs)"
proof (induction xs)
  case Nil
  then show ?case by simp
next
  case (Cons x xs)
  then show ?case by (cases x) (simp add: insert_commute)
qed

lemma dict_set_fresh: "k \<notin> fst ` set xs \<Longrightarrow> dict_set xs k v = xs @ [(k, v)]"
  by (induction xs) auto

lemma distinct_dict_set: "distinct (map fst xs) \<Longrightarrow> distinct (map fst (dict_set xs k v))"
  by (induction xs) (auto simp: keys_dict_set)

subsection \<open>The loop over the live tracks\<close>

lemma match_tracks_foldl:
  "match_tracks f dets ts acc = foldl (\<lambda>a t. match_track f dets t a) acc ts"
  by (induction ts arbitrary: acc) simp_all

lemma match_track_cases:
  assumes "best_match M (bbox od) (enumerate 0 dets) (- 1, 0) = (b, v)"
  shows "match_track f dets (oid, od) (nt, M) =
           (if b \<noteq> - 1 \<and> v > 0.3
            then (dict_set nt oid (new_track (dets ! nat b) f), insert b M)
            else if f - last_seen_frame od < 5 then (dict_set nt oid od, M)
            else (nt, M))"
  by (simp add: match_track_def assms)

lemma match_tracks_consumed:
  "snd (match_tracks f dets ts (nt, M)) = M \<union> snd ` set (claims dets ts M)"
proof (induction ts arbitrary: nt M)
  case Nil
  then show ?case by simp
next
  case (Cons t ts)
  obtain oid od where t: "t = (oid, od)" by (cases t)
  obtain b v where bm: "best_match M (bbox od) (enumerate 0 dets) (- 1, 0) = (b, v)"
    by (cases "best_match M (bbox od) (enumerate 0 dets) (- 1, 0)")
  show ?case
    by (auto simp: t bm match_track_cases [OF bm] Cons.IH)
qed

lemma claims_fresh:
  "(oid, b) \<in> set (claims dets ts M) \<Longrightarrow> b \<notin> M \<and> 0 \<le> b \<and> nat b < length dets"
proof (induction ts arbitrary: M)
  case Nil
  then show ?case by simp
next
  case (Cons t ts)
  obtain oid' od where t: "t = (oid', od)" by (cases t)
  obtain b' v where bm: "best_match M (bbox od) (enumerate 0 dets) (- 1, 0) = (b', v)"
    by (cases "best_match M (bbox od) (enumerate 0 dets) (- 1, 0)")
  from best_match_index [OF bm] Cons.prems Cons.IH [of "insert b' M"] Cons.IH [of M]
  show ?case
    by (auto simp: t bm split: if_splits)
qed

lemma claims_distinct: "distinct (map snd (claims dets ts M))"
proof (induction ts arbitrary: M)
  case Nil
  then show ?case by simp
next
  case (Cons t ts)
  obtain oid od where t: "t = (oid, od)" by (cases t)
  obtain b v where bm: "best_match M (bbox od) (enumerate 0 dets) (- 1, 0) = (b, v)"
    by (cases "best_match M (bbox od) (enumerate 0 dets) (- 1, 0)")
  have "b \<notin> snd ` set (claims dets ts (insert b M))"
    using claims_fresh [of _ b dets ts "insert b M"] by auto
  with Cons.IH show ?case
    by (simp add: t bm)
qed

lemma claims_keys: "fst ` set (claims dets ts M) \<subseteq> fst ` set ts"
proof (induction ts arbitrary: M)
  case Nil
  then show ?case by simp
next
  case (Cons t ts)
  obtain oid od where t: "t = (oid, od)" by (cases t)
  obtain b v where bm: "best_match M (bbox od) (enumerate 0 dets) (- 1, 0) = (b, v)"
    by (cases "best_match M (bbox od) (enumerate 0 dets) (- 1, 0)")
  from Cons.IH [of M] Cons.IH [of "insert b M"] show ?case
    by (auto simp: t bm)
qed

lemma claims_positive:
  "(oid, b) \<in> set (claims dets ts M) \<Longrightarrow> box_area (bbox (dets ! nat b)) \<noteq> 0"
proof (induction ts arbitrary: M)
  case Nil
  then show ?case by simp
next
  case (Cons t ts)
  obtain oid' od where t: "t = (oid', od)" by (cases t)
  obtain b' v where bm: "best_match M (bbox od) (enumerate 0 dets) (- 1, 0) = (b', v)"
    by (cases "best_match M (bbox od) (enumerate 0 dets) (- 1, 0)")
  have here: "box_area (bbox (dets ! nat b')) \<noteq> 0" if "b' \<noteq> - 1"
    using best_match_index [OF bm] that iou_zero_area [of "bbox od" "bbox (dets ! nat b')"]
    by auto
  from Cons.prems Cons.IH [of "insert b' M"] Cons.IH [of M] here show ?case
    by (auto simp: t bm split: if_splits)
qed

lemma best_candidate_claims:
  assumes "best_candidate M (bbox od) dets i" and "iou (bbox od) (bbox (dets ! i)) > 0.3"
  shows "claims dets ((oid, od) # ts) M = (oid, int i) # claims dets ts (insert (int i) M)"
proof -
  from assms(2) have pos: "0 < iou (bbox od) (bbox (dets ! i))" by simp
  from assms(1) have "best_match M (bbox od) (enumerate 0 dets) (- 1, 0)
      = (int (0 + i), iou (bbox od) (bbox (dets ! i)))"
    unfolding best_candidate_def
    by (intro best_match_argmax) (use pos in auto)
  with assms(2) show ?thesis by simp
qed

lemma match_tracks_keys:
  "fst ` set (fst (match_tracks f dets ts (nt, M))) \<subseteq> fst ` set nt \<union> fst ` set ts"
proof (induction ts arbitrary: nt M)
  case Nil
  then show ?case by simp
next
  case (Cons t ts)
  obtain oid od where t: "t = (oid, od)" by (cases t)
  obtain b v where bm: "best_match M (bbox od) (enumerate 0 dets) (- 1, 0) = (b, v)"
    by (cases "best_match M (bbox od) (enumerate 0 dets) (- 1, 0)")
  obtain nt' M' where mt: "match_track f dets (oid, od) (nt, M) = (nt', M')"
    by (cases "match_track f dets (oid, od) (nt, M)")
  from mt have "nt' = dict_set nt oid (new_track (dets ! nat b) f)
      \<or> nt' = dict_set nt oid od \<or> nt' = nt"
    by (auto simp: match_track_cases [OF bm] split: if_splits)
  then have "fst ` set nt' \<subseteq> insert oid (fst ` set nt)"
    by (elim disjE) (simp_all add: keys_dict_set subset_insertI)
  with Cons.IH [of nt' M'] show ?case
    by (auto simp: t mt)
qed

lemma match_tracks_distinct:
  "distinct (map fst nt) \<Longrightarrow> distinct (map fst (fst (match_tracks f dets ts (nt, M))))"
proof (induction ts arbitrary: nt M)
  case Nil
  then show ?case by simp
next
  case (Cons t ts)
  obtain oid od where t: "t = (oid, od)" by (cases t)
  obtain b v where bm: "best_match M (bbox od) (enumerate 0 dets) (- 1, 0) = (b, v)"
    by (cases "best_match M (bbox od) (enumerate 0 dets) (- 1, 0)")
  obtain nt' M' where mt: "match_track f dets (oid, od) (nt, M) = (nt', M')"
    by (cases "match_track f dets (oid, od) (nt, M)")
  from mt Cons.prems have "distinct (map fst nt')"
    by (auto simp: match_track_cases [OF bm] distinct_dict_set split: if_splits)
  from Cons.IH [OF this, of M'] show ?case
    by (simp add: t mt)
qed

lemma match_tracks_lookup:
  "distinct (map fst ts) \<Longrightarrow>
   map_of (fst (match_tracks f dets ts (nt, M))) k =
     (case map_of ts k of
        None \<Rightarrow> map_of nt k
      | Some od \<Rightarrow>
          (case map_of (claims dets ts M) k of
             Some b \<Rightarrow> Some (new_track (dets ! nat b) f)
           | None \<Rightarrow> if f - last_seen_frame od < 5 then Some od else map_of nt k))"
proof (induction ts arbitrary: nt M)
  case Nil
  then show ?case by simp
next
  case (Cons t ts)
  obtain oid od where t: "t = (oid, od)" by (cases t)
  obtain b v where bm: "best_match M (bbox od) (enumerate 0 dets) (- 1, 0) = (b, v)"
    by (cases "best_match M (bbox od) (enumerate 0 dets) (- 1, 0)")
  obtain nt' M' where mt: "match_track f dets (oid, od) (nt, M) = (nt', M')"
    by (cases "match_track f dets (oid, od) (nt, M)")
  from Cons.prems have d: "distinct (map fst ts)" and fresh: "oid \<notin> fst ` set ts"
    by (auto simp: t)
  from fresh have none: "map_of ts oid = None"
    by (simp add: map_of_eq_None_iff)
  have IH: "map_of (fst (match_tracks f dets ts (nt', M'))) k =
     (case map_of ts k of
        None \<Rightarrow> map_of nt' k
      | Some od \<Rightarrow>
          (case map_of (claims dets ts M') k of
             Some b \<Rightarrow> Some (new_track (dets ! nat b) f)
           | None \<Rightarrow> if f - last_seen_frame od < 5 then Some od else map_of nt' k))"
    by (rule Cons.IH [OF d])
  have cl_none: "map_of (claims dets ts M'') oid = None" for M''
    using claims_keys [of dets ts M''] fresh by (auto simp: map_of_eq_None_iff)
  have own: "map_of nt' oid =
      (if b \<noteq> - 1 \<and> v > 0.3 then Some (new_track (dets ! nat b) f)
       else if f - last_seen_frame od < 5 then Some od else map_of nt oid)"
    using mt by (auto simp: match_track_cases [OF bm] map_of_dict_set split: if_splits)
  show ?case
  proof (cases "k = oid")
    case True
    show ?thesis
      unfolding True by (simp add: t bm mt IH [unfolded True] none own cl_none)
  next
    case False
    from mt have other: "map_of nt' k = map_of nt k"
      using False by (auto simp: match_track_cases [OF bm] map_of_dict_set split: if_splits)
    from mt have M': "M' = (if b \<noteq> - 1 \<and> v > 0.3 then insert b M else M)"
      by (auto simp: match_track_cases [OF bm] split: if_splits)
    have clk: "map_of (claims dets (t # ts) M) k = map_of (claims dets ts M') k"
      using False by (simp add: t bm M')
    have mk: "map_of (t # ts) k = map_of ts k"
      using False by (simp add: t)
    have "map_of (fst (match_tracks f dets (t # ts) (nt, M))) k =
          map_of (fst (match_tracks f dets ts (nt', M'))) k"
      by (simp add: t mt)
    also note IH
    finally show ?thesis
      unfolding clk mk other .
  qed
qed

lemma zero_area_track_unmatched:
  assumes "box_area (bbox od) = 0"
  shows "match_track f dets (oid, od) (nt, M) =
           (if f - last_seen_frame od < 5 then (dict_set nt oid od, M) else (nt, M))"
proof -
  obtain b v where bm: "best_match M (bbox od) (enumerate 0 dets) (- 1, 0) = (b, v)"
    by (cases "best_match M (bbox od) (enumerate 0 dets) (- 1, 0)")
  from best_match_index [OF bm] assms iou_zero_area [of "bbox od" "bbox (dets ! nat b)"]
  have "b = - 1" by auto
  then show ?thesis by (simp add: match_track_cases [OF bm])
qed

lemma zero_area_detection_unconsumed:
  assumes "box_area (bbox (dets ! i)) = 0"
  shows "int i \<notin> snd (match_tracks f dets ts ([], {}))"
proof
  assume "int i \<in> snd (match_tracks f dets ts ([], {}))"
  then obtain oid where "(oid, int i) \<in> set (claims dets ts {})"
    by (auto simp: match_tracks_consumed)
  from claims_positive [OF this] assms show False by simp
qed

subsection \<open>The loop that creates tracks\<close>

lemma add_new_spawned:
  "\<forall>k \<in> fst ` set nt. k < n \<Longrightarrow>
   add_new f M eds (nt, n) =
     (nt @ spawned f n (map snd (filter (\<lambda>(i, d). int i \<notin> M) eds)),
      n + int (length (filter (\<lambda>(i, d). int i \<notin> M) eds)))"
proof (induction eds arbitrary: nt n)
  case Nil
  then show ?case by simp
next
  case (Cons e eds)
  obtain i d where e: "e = (i, d)" by (cases e)
  show ?case
  proof (cases "int i \<in> M")
    case True
    with Cons.IH [OF Cons.prems] show ?thesis by (simp add: e)
  next
    case False
    from Cons.prems have "n \<notin> fst ` set nt" by auto
    then have ds: "dict_set nt n (new_track d f) = nt @ [(n, new_track d f)]"
      by (rule dict_set_fresh)
    have "\<forall>k \<in> fst ` set (nt @ [(n, new_track d f)]). k < n + 1"
      using Cons.prems by auto
    from Cons.IH [OF this] False show ?thesis
      by (simp add: e ds)
  qed
qed

lemma spawned_ids:
  "map fst (spawned f n ds) = map (\<lambda>j. n + int j) [0..<length ds]"
proof (induction ds arbitrary: n)
  case Nil
  then show ?case by simp
next
  case (Cons d ds)
  have "map (\<lambda>j. n + int j) [0..<Suc (length ds)] =
        n # map (\<lambda>j. n + 1 + int j) [0..<length ds]"
    by (simp add: upt_conv_Cons map_Suc_upt [symmetric] del: upt_Suc)
  with Cons.IH [of "n + 1"] show ?case by simp
qed

lemma spawned_keys: "k \<in> fst ` set (spawned f n ds) \<Longrightarrow> n \<le> k \<and> k < n + int (length ds)"
proof -
  assume "k \<in> fst ` set (spawned f n ds)"
  then have "k \<in> set (map fst (spawned f n ds))" by simp
  then show ?thesis unfolding spawned_ids by auto
qed

lemma spawned_distinct: "distinct (map fst (spawned f n ds))"
  unfolding spawned_ids by (simp add: distinct_map inj_on_def)

lemma spawned_nth:
  "j < length ds \<Longrightarrow> (n + int j, new_track (ds ! j) f) \<in> set (spawned f n ds)"
proof (induction ds arbitrary: n j)
  case Nil
  then show ?case by simp
next
  case (Cons d ds)
  show ?case
  proof (cases j)
    case 0
    then show ?thesis by simp
  next
    case (Suc j')
    with Cons.prems have "j' < length ds" by simp
    from Cons.IH [OF this, of "n + 1"] Suc show ?thesis by (simp add: add.assoc)
  qed
qed

lemma unconsumed_member:
  "i < length dets \<Longrightarrow> int i \<notin> M \<Longrightarrow> dets ! i \<in> set (unconsumed M dets)"
proof -
  assume a: "i < length dets" "int i \<notin> M"
  then have "(i, dets ! i) \<in> set (filter (\<lambda>(i, d). int i \<notin> M) (enumerate 0 dets))"
    by (simp add: in_set_enumerate_eq)
  then have "snd (i, dets ! i) \<in> snd ` set (filter (\<lambda>(i, d). int i \<notin> M) (enumerate 0 dets))"
    by (rule imageI)
  then show ?thesis by (simp add: unconsumed_def)
qed

lemma associate_unfold:
  assumes "tracker_inv s"
  shows "associate f dets s =
     s\<lparr>next_object_id :=
          next_object_id s
            + int (length (unconsumed (snd (match_tracks f dets (tracked_objects s) ([], {}))) dets)),
       tracked_objects :=
          fst (match_tracks f dets (tracked_objects s) ([], {}))
            @ spawned f (next_object_id s)
                (unconsumed (snd (match_tracks f dets (tracked_objects s) ([], {}))) dets)\<rparr>"
proof -
  obtain surv M where mt: "match_tracks f dets (tracked_objects s) ([], {}) = (surv, M)"
    by (cases "match_tracks f dets (tracked_objects s) ([], {})")
  have "fst ` set surv \<subseteq> fst ` set (tracked_objects s)"
    using match_tracks_keys [of f dets "tracked_objects s" "[]" "{}"] by (simp add: mt)
  with assms have "\<forall>k \<in> fst ` set surv. k < next_object_id s"
    unfolding tracker_inv_def live_ids_def set_map by blast
  from add_new_spawned [OF this, of f M "enumerate 0 dets"] show ?thesis
    by (simp add: associate_def mt unconsumed_def)
qed

lemma unconsumed_spawns:
  assumes "tracker_inv s" and "i < length dets"
    and "int i \<notin> snd (match_tracks f dets (tracked_objects s) ([], {}))"
  shows "\<exists>k \<ge> next_object_id s.
           (k, new_track (dets ! i) f) \<in> set (tracked_objects (associate f dets s))"
proof -
  let ?new = "unconsumed (snd (match_tracks f dets (tracked_objects s) ([], {}))) dets"
  from unconsumed_member [OF assms(2,3)] obtain j where j: "j < length ?new" "?new ! j = dets ! i"
    by (auto simp: in_set_conv_nth)
  from spawned_nth [OF j(1), of "next_object_id s" f] j(2)
  have "(next_object_id s + int j, new_track (dets ! i) f)
          \<in> set (tracked_objects (associate f dets s))"
    by (simp add: associate_unfold [OF assms(1)])
  then show ?thesis by (intro exI [of _ "next_object_id s + int j"]) simp
qed

lemma unmatched_lookup:
  assumes inv: "tracker_inv s" and live: "map_of (tracked_objects s) oid = Some od"
    and un: "oid \<notin> fst ` set (claims dets (tracked_objects s) {})"
  shows "map_of (tracked_objects (associate f dets s)) oid =
           (if f - last_seen_frame od < 5 then Some od else None)"
proof -
  let ?mt = "match_tracks f dets (tracked_objects s) ([], {})"
  let ?new = "spawned f (next_object_id s) (unconsumed (snd ?mt) dets)"
  from inv have d: "distinct (map fst (tracked_objects s))"
    by (simp add: tracker_inv_def live_ids_def)
  from un have cl: "map_of (claims dets (tracked_objects s) {}) oid = None"
    by (simp add: map_of_eq_None_iff)
  have surv: "map_of (fst ?mt) oid = (if f - last_seen_frame od < 5 then Some od else None)"
    by (simp add: match_tracks_lookup [OF d] live cl)
  from live have "oid \<in> fst ` set (tracked_objects s)"
    by (metis map_of_eq_None_iff option.distinct(1))
  with inv have "oid < next_object_id s"
    unfolding tracker_inv_def live_ids_def set_map by blast
  with spawned_keys [of oid f "next_object_id s" "unconsumed (snd ?mt) dets"]
  have "oid \<notin> fst ` set ?new" by auto
  then have fresh: "map_of ?new oid = None"
    by (simp add: map_of_eq_None_iff)
  show ?thesis
    by (simp add: associate_unfold [OF inv] map_add_def fresh surv)
qed

lemma associate_live_ids:
  assumes "tracker_inv s"
  shows "live_ids (associate f dets s) =
           map fst (fst (match_tracks f dets (tracked_objects s) ([], {})))
             @ map (\<lambda>j. next_object_id s + int j)
                 [0..<nat (next_object_id (associate f dets s) - next_object_id s)]"
    and "next_object_id s \<le> next_object_id (associate f dets s)"
  by (simp_all add: associate_unfold [OF assms] live_ids_def spawned_ids)

lemma associate_inv:
  assumes "tracker_inv s"
  shows "tracker_inv (associate f dets s)"
proof -
  let ?surv = "fst (match_tracks f dets (tracked_objects s) ([], {}))"
  let ?new = "unconsumed (snd (match_tracks f dets (tracked_objects s) ([], {}))) dets"
  have sub: "fst ` set ?surv \<subseteq> fst ` set (tracked_objects s)"
    using match_tracks_keys [of f dets "tracked_objects s" "[]" "{}"] by simp
  with assms have low: "\<forall>k \<in> fst ` set ?surv. k < next_object_id s"
    unfolding tracker_inv_def live_ids_def set_map by blast
  have d1: "distinct (map fst ?surv)"
    by (rule match_tracks_distinct) simp
  have disj: "fst ` set ?surv \<inter> fst ` set (spawned f (next_object_id s) ?new) = {}"
    using low spawned_keys [of _ f "next_object_id s" ?new] by fastforce
  have "distinct (map fst (?surv @ spawned f (next_object_id s) ?new))"
    using d1 spawned_distinct [of f "next_object_id s" ?new] disj by simp
  moreover have "\<forall>k \<in> fst ` set (?surv @ spawned f (next_object_id s) ?new).
      k < next_object_id s + int (length ?new)"
    using low spawned_keys [of _ f "next_object_id s" ?new] by fastforce
  ultimately show ?thesis
    by (auto simp: associate_unfold [OF assms] tracker_inv_def live_ids_def)
qed

lemma associate_dead_stays_dead:
  assumes "tracker_inv s" and "k < next_object_id s" and "k \<notin> set (live_ids s)"
  shows "k \<notin> set (live_ids (associate f dets s))"
proof -
  have sub: "fst ` set (fst (match_tracks f dets (tracked_objects s) ([], {})))
      \<subseteq> fst ` set (tracked_objects s)"
    using match_tracks_keys [of f dets "tracked_objects s" "[]" "{}"] by simp
  with assms(3) have "k \<notin> fst ` set (fst (match_tracks f dets (tracked_objects s) ([], {})))"
    by (auto simp: live_ids_def)
  with assms(2) show ?thesis
    by (auto simp: associate_live_ids(1) [OF assms(1)])
qed

subsection \<open>The frame loop\<close>

lemma dd_tracker [simp]:
  "tracked_objects (snd (determine_direction cfg oid c w h s)) = tracked_objects s"
  "next_object_id (snd (determine_direction cfg oid c w h s)) = next_object_id s"
  by (simp_all add: determine_direction_def Let_def)

lemma classify_tracks_tracker:
  "tracked_objects (snd (classify_tracks cfg w h ts s)) = tracked_objects s \<and>
   next_object_id (snd (classify_tracks cfg w h ts s)) = next_object_id s"
proof (induction ts arbitrary: s)
  case Nil
  then show ?case by simp
next
  case (Cons t ts)
  obtain oid od where t: "t = (oid, od)" by (cases t)
  obtain r s1 where dd: "determine_direction cfg oid (centroid od) w h s = (r, s1)"
    by (cases "determine_direction cfg oid (centroid od) w h s")
  from dd_tracker [of cfg oid "centroid od" w h s] dd
  have s1: "tracked_objects s1 = tracked_objects s" "next_object_id s1 = next_object_id s"
    by simp_all
  define s2 where "s2 = (case r of None \<Rightarrow> s1
        | Some v \<Rightarrow> if v \<noteq> [] then
             s1\<lparr>object_direction_status := (object_direction_status s1)(oid \<mapsto> v)\<rparr> else s1)"
  have s2: "tracked_objects s2 = tracked_objects s" "next_object_id s2 = next_object_id s"
    by (simp_all add: s2_def s1 split: option.splits)
  from Cons.IH [of s2] s2 show ?case
    by (auto simp: t dd s2_def [symmetric] split: prod.splits)
qed

lemma process_frame_tracker:
  "tracked_objects (snd (process_frame cfg w h f boxes s))
     = tracked_objects (associate f (map make_detection boxes) s)"
  "next_object_id (snd (process_frame cfg w h f boxes s))
     = next_object_id (associate f (map make_detection boxes) s)"
  by (simp_all add: process_frame_def Let_def classify_tracks_tracker)

lemma process_frame_inv:
  "tracker_inv s \<Longrightarrow> tracker_inv (snd (process_frame cfg w h f boxes s))"
  using associate_inv [of s f "map make_detection boxes"]
  by (simp add: tracker_inv_def live_ids_def process_frame_tracker)

lemma process_frames_inv:
  "tracker_inv s \<Longrightarrow> tracker_inv (snd (process_frames cfg w h f frames s))"
proof (induction frames arbitrary: f s)
  case Nil
  then show ?case by simp
next
  case (Cons boxes frames)
  from process_frame_inv [OF Cons.prems, of cfg w h f boxes]
  have "tracker_inv (snd (process_frames cfg w h (f + 1) frames
            (snd (process_frame cfg w h f boxes s))))"
    by (rule Cons.IH)
  then show ?case by (auto split: prod.splits)
qed

lemma process_frames_dead_stays_dead:
  "tracker_inv s \<Longrightarrow> k < next_object_id s \<Longrightarrow> k \<notin> set (live_ids s) \<Longrightarrow>
   k \<notin> set (live_ids (snd (process_frames cfg w h f frames s)))"
proof (induction frames arbitrary: f s)
  case Nil
  then show ?case by simp
next
  case (Cons boxes frames)
  let ?s1 = "snd (process_frame cfg w h f boxes s)"
  have i1: "tracker_inv ?s1" by (rule process_frame_inv [OF Cons.prems(1)])
  have n1: "k < next_object_id ?s1"
    using Cons.prems(2) associate_live_ids(2) [OF Cons.prems(1), of f "map make_detection boxes"]
    by (simp add: process_frame_tracker)
  have d1: "k \<notin> set (live_ids ?s1)"
    using associate_dead_stays_dead [OF Cons.prems, of f "map make_detection boxes"]
    by (simp add: live_ids_def process_frame_tracker)
  from Cons.IH [OF i1 n1 d1, of "f + 1"] show ?case
    by (auto split: prod.splits)
qed

lemma initial_inv: "tracker_inv initial_state"
  by (simp add: tracker_inv_def live_ids_def initial_state_def)

lemma process_frames_prefix:
  "take n fs1 = take n fs2 \<Longrightarrow>
   take n (fst (process_frames cfg w h f fs1 s)) = take n (fst (process_frames cfg w h f fs2 s))"
proof (induction n arbitrary: fs1 fs2 f s)
  case 0
  then show ?case by simp
next
  case (Suc n)
  show ?case
  proof (cases fs1)
    case Nil
    with Suc.prems have "fs2 = []" by (cases fs2) simp_all
    with Nil show ?thesis by simp
  next
    case (Cons x xs)
    with Suc.prems obtain ys where fs2: "fs2 = x # ys" and t: "take n xs = take n ys"
      by (cases fs2) simp_all
    from Suc.IH [OF t, of "f + 1" "snd (process_frame cfg w h f x s)"]
    show ?thesis
      by (auto simp: Cons fs2 split: prod.splits)
  qed
qed

lemma process_frames_length: "length (fst (process_frames cfg w h f fs s)) = length fs"
proof (induction fs arbitrary: f s)
  case Nil
  then show ?case by simp
next
  case (Cons x xs)
  from Cons.IH [of "f + 1" "snd (process_frame cfg w h f x s)"] show ?case
    by (auto split: prod.splits)
qed

section \<open>The tracker's claims\<close>

subsection \<open>Degenerate boxes\<close>

text \<open>
  Claim C8.  The IOU is defined for every pair of boxes and lies between 0 and 1; it is 0
  whenever the union area is not positive (the division is guarded) and whenever one of
  the two boxes has zero area.  A track whose box has zero area therefore consumes no
  detection, and a detection whose box has zero area is consumed by no track.  The index
  that the search returns, when it is not \<open>-1\<close>, is a valid index into the detections of
  the frame, so the lookup that follows cannot fail.  (Coordinates are exact reals here.)
\<close>

theorem iou_degenerate_safe:
  "(union_area b1 b2 \<le> 0 \<longrightarrow> iou b1 b2 = 0) \<and>
   (box_area b1 = 0 \<or> box_area b2 = 0 \<longrightarrow> iou b1 b2 = 0) \<and>
   0 \<le> iou b1 b2 \<and> iou b1 b2 \<le> 1 \<and>
   (box_area (bbox od) = 0 \<longrightarrow> snd (match_track f dets (oid, od) (nt, M)) = M) \<and>
   (box_area (bbox (dets ! i)) = 0 \<longrightarrow> int i \<notin> snd (match_tracks f dets ts ([], {}))) \<and>
   (best_match M b (enumerate 0 dets) (- 1, 0) = (k, v) \<and> k \<noteq> - 1 \<longrightarrow>
      0 \<le> k \<and> nat k < length dets)"
proof -
  have 1: "union_area b1 b2 \<le> 0 \<longrightarrow> iou b1 b2 = 0"
    by (simp add: iou_unfold)
  have 2: "box_area b1 = 0 \<or> box_area b2 = 0 \<longrightarrow> iou b1 b2 = 0"
    using iou_zero_area [of b1 b2] by blast
  have 3: "box_area (bbox od) = 0 \<longrightarrow> snd (match_track f dets (oid, od) (nt, M)) = M"
    by (simp add: zero_area_track_unmatched)
  have 4: "box_area (bbox (dets ! i)) = 0 \<longrightarrow> int i \<notin> snd (match_tracks f dets ts ([], {}))"
    using zero_area_detection_unconsumed [of dets i f ts] by blast
  have 5: "best_match M b (enumerate 0 dets) (- 1, 0) = (k, v) \<and> k \<noteq> - 1 \<longrightarrow>
      0 \<le> k \<and> nat k < length dets"
    using best_match_index [of M b dets k v] by blast
  from 1 2 3 4 5 iou_nonneg [of b1 b2] iou_le_one [of b1 b2] show ?thesis by blast
qed

theorem iou_degenerate_safe_witness:
  "union_area (0, 0, 0, 0) (0, 0, 0, 0) \<le> 0 \<and>
   (box_area (0, 0, 0, 0) = 0 \<or> box_area (0, 0, 0, 0) = 0) \<and>
   box_area (bbox (track_at (5, 5, 5, 9) 0)) = 0 \<and>
   box_area (bbox ([det_of (5, 5, 5, 9), det_of (0, 0, 10, 10)] ! 0)) = 0 \<and>
   best_match {} (0, 0, 10, 10) (enumerate 0 [det_of (5, 5, 5, 9), det_of (0, 0, 10, 10)]) (- 1, 0)
     = (1, 1) \<and> (1 :: int) \<noteq> - 1 \<and>
   iou (0, 0, 0, 0) (0, 0, 0, 0) = 0 \<and>
   snd (match_track 1 [det_of (5, 5, 5, 9), det_of (0, 0, 10, 10)] (0, track_at (5, 5, 5, 9) 0)
          ([], {})) = {} \<and>
   int 0 \<notin> snd (match_tracks 1 [det_of (5, 5, 5, 9), det_of (0, 0, 10, 10)]
                  [(0, track_at (0, 0, 10, 10) 0)] ([], {}))"
proof -
  let ?dets = "[det_of (5, 5, 5, 9), det_of (0, 0, 10, 10)]"
  have h1: "union_area (0, 0, 0, 0) (0, 0, 0, 0) \<le> 0"
    by (simp add: union_area_def intersection_area_def box_area_def)
  have h2: "box_area (0, 0, 0, 0) = 0"
    by (simp add: box_area_def)
  have h3: "box_area (bbox (track_at (5, 5, 5, 9) 0)) = 0"
    by (simp add: box_area_def track_at_def new_track_def det_of_def make_detection_def)
  have h4: "box_area (bbox (?dets ! 0)) = 0"
    by (simp add: box_area_def det_of_def make_detection_def)
  have h5: "best_match {} (0, 0, 10, 10) (enumerate 0 ?dets) (- 1, 0) = (1, 1)"
    by code_simp
  show ?thesis
    using h1 h2 h3 h4 h5
      iou_degenerate_safe [where ?b1.0 = "(0, 0, 0, 0)" and ?b2.0 = "(0, 0, 0, 0)"
        and od = "track_at (5, 5, 5, 9) 0" and f = 1 and dets = ?dets and oid = 0 and nt = "[]"
        and M = "{}" and i = 0 and ts = "[(0, track_at (0, 0, 10, 10) 0)]"
        and b = "(0, 0, 10, 10)" and k = 1 and v = 1]
    by simp
qed

subsection \<open>Consumption of detections\<close>

text \<open>
  Claim C10.  Processing one track adds an index to the consumed set only when its best
  candidate passes the test (an index was found and its IOU exceeds 0.3), and then it adds
  exactly that index; otherwise the consumed set is unchanged.  Over the whole loop the
  consumed set is the initial one plus the indices of the successful matches.  Every
  detection still unconsumed after the loop becomes a new track with a fresh identity.
\<close>

theorem consumed_only_on_success:
  "(best_match M (bbox od) (enumerate 0 dets) (- 1, 0) = (b, v) \<longrightarrow>
      snd (match_track f dets (oid, od) (nt, M)) =
        (if b \<noteq> - 1 \<and> v > 0.3 then insert b M else M)) \<and>
   snd (match_tracks f dets ts (nt, M)) = M \<union> snd ` set (claims dets ts M) \<and>
   (tracker_inv s \<and> i < length dets \<and>
      int i \<notin> snd (match_tracks f dets (tracked_objects s) ([], {})) \<longrightarrow>
      (\<exists>k \<ge> next_object_id s.
         (k, new_track (dets ! i) f) \<in> set (tracked_objects (associate f dets s))))"
proof -
  have 1: "best_match M (bbox od) (enumerate 0 dets) (- 1, 0) = (b, v) \<longrightarrow>
      snd (match_track f dets (oid, od) (nt, M)) =
        (if b \<noteq> - 1 \<and> v > 0.3 then insert b M else M)"
    by (simp add: match_track_def)
  from 1 match_tracks_consumed [of f dets ts nt M] unconsumed_spawns [of s i dets f]
  show ?thesis by blast
qed

theorem consumed_only_on_success_witness:
  "best_match {} (bbox (track_at (0, 0, 10, 10) 0)) (enumerate 0 [det_of (100, 100, 110, 110)]) (- 1, 0)
     = (- 1, 0) \<and>
   tracker_inv (with_tracks [(0, track_at (0, 0, 10, 10) 0)] 1 initial_state) \<and>
   0 < length [det_of (100, 100, 110, 110)] \<and>
   int 0 \<notin> snd (match_tracks 1 [det_of (100, 100, 110, 110)]
                  (tracked_objects (with_tracks [(0, track_at (0, 0, 10, 10) 0)] 1 initial_state))
                  ([], {})) \<and>
   snd (match_track 1 [det_of (100, 100, 110, 110)] (0, track_at (0, 0, 10, 10) 0) ([], {})) = {} \<and>
   (\<exists>k \<ge> next_object_id (with_tracks [(0, track_at (0, 0, 10, 10) 0)] 1 initial_state).
      (k, new_track ([det_of (100, 100, 110, 110)] ! 0) 1)
        \<in> set (tracked_objects (associate 1 [det_of (100, 100, 110, 110)]
                  (with_tracks [(0, track_at (0, 0, 10, 10) 0)] 1 initial_state))))"
proof -
  let ?s = "with_tracks [(0, track_at (0, 0, 10, 10) 0)] 1 initial_state"
  let ?dets = "[det_of (100, 100, 110, 110)]"
  have h1: "best_match {} (bbox (track_at (0, 0, 10, 10) 0)) (enumerate 0 ?dets) (- 1, 0) = (- 1, 0)"
    by code_simp
  have h2: "tracker_inv ?s"
    by (simp add: tracker_inv_def live_ids_def with_tracks_def)
  have h3: "int 0 \<notin> snd (match_tracks 1 ?dets (tracked_objects ?s) ([], {}))"
    by code_simp
  show ?thesis
    using h1 h2 h3
      consumed_only_on_success [where M = "{}" and od = "track_at (0, 0, 10, 10) 0"
        and dets = ?dets and b = "- 1" and v = 0 and f = 1 and oid = 0 and nt = "[]"
        and s = ?s and i = 0]
    by simp
qed

subsection \<open>First claim wins\<close>

lemma claims_in_order: "subseq (map fst (claims dets ts M)) (map fst ts)"
proof (induction ts arbitrary: M)
  case Nil
  then show ?case by simp
next
  case (Cons t ts)
  obtain oid od where t: "t = (oid, od)" by (cases t)
  obtain b v where bm: "best_match M (bbox od) (enumerate 0 dets) (- 1, 0) = (b, v)"
    by (cases "best_match M (bbox od) (enumerate 0 dets) (- 1, 0)")
  from Cons.IH [of M] Cons.IH [of "insert b M"] show ?case
    by (auto simp: t bm)
qed

text \<open>
  Claim C4, as amended.  The tracks are processed in the order of the live-track list (the
  loop is a left fold over it, and the successful matches are logged in that order), no
  detection index is claimed twice in a frame, and the consumed set is exactly the set of
  claimed indices.  When a track's turn comes and detection \<open>i\<close> is its best candidate
  among the detections still unconsumed, with an IOU above 0.3, that track claims \<open>i\<close>
  and no later track does.
\<close>

theorem first_claim_wins_for_best_candidate:
  "match_tracks f dets ts acc = foldl (\<lambda>a t. match_track f dets t a) acc ts \<and>
   subseq (map fst (claims dets ts M)) (map fst ts) \<and>
   distinct (map snd (claims dets ts M)) \<and>
   snd (match_tracks f dets ts (nt, M)) = M \<union> snd ` set (claims dets ts M) \<and>
   (best_candidate M (bbox od) dets i \<and> iou (bbox od) (bbox (dets ! i)) > 0.3 \<longrightarrow>
      claims dets ((oid, od) # ts) M = (oid, int i) # claims dets ts (insert (int i) M) \<and>
      int i \<notin> snd ` set (claims dets ts (insert (int i) M)))"
proof -
  have later: "int i \<notin> snd ` set (claims dets ts (insert (int i) M))"
    using claims_fresh [of _ "int i" dets ts "insert (int i) M"] by auto
  from later best_candidate_claims [of M od dets i oid ts]
    claims_distinct [of dets ts M] match_tracks_consumed [of f dets ts nt M]
    match_tracks_foldl [of f dets ts acc] claims_in_order [of dets ts M]
  show ?thesis by simp
qed

theorem first_claim_wins_for_best_candidate_witness:
  "best_candidate {} (bbox (track_at (0, 0, 10, 10) 0))
     [det_of (0, 0, 10, 8), det_of (0, 0, 10, 10)] 1 \<and>
   0.3 < iou (bbox (track_at (0, 0, 10, 10) 0))
           (bbox ([det_of (0, 0, 10, 8), det_of (0, 0, 10, 10)] ! 1)) \<and>
   claims [det_of (0, 0, 10, 8), det_of (0, 0, 10, 10)]
     ((0, track_at (0, 0, 10, 10) 0) # [(1, track_at (0, 0, 10, 8) 0)]) {}
     = (0, 1) # claims [det_of (0, 0, 10, 8), det_of (0, 0, 10, 10)]
                  [(1, track_at (0, 0, 10, 8) 0)] (insert 1 {})"
proof -
  let ?dets = "[det_of (0, 0, 10, 8), det_of (0, 0, 10, 10)]"
  have i0: "iou (0, 0, 10, 10) (0, 0, 10, 8) = 4 / 5"
    by (simp add: iou_unfold union_area_def intersection_area_def box_area_def)
  have i1: "iou (0, 0, 10, 10) (0, 0, 10, 10) = 1"
    by (simp add: iou_unfold union_area_def intersection_area_def box_area_def)
  have b: "bbox (track_at (0, 0, 10, 10) 0) = (0, 0, 10, 10)"
    "bbox (det_of (0, 0, 10, 8)) = (0, 0, 10, 8)" "bbox (det_of (0, 0, 10, 10)) = (0, 0, 10, 10)"
    by (simp_all add: track_at_def new_track_def det_of_def make_detection_def)
  have h1: "best_candidate {} (bbox (track_at (0, 0, 10, 10) 0)) ?dets 1"
    by (simp add: best_candidate_def b i0 i1 less_Suc_eq)
  have h2: "0.3 < iou (bbox (track_at (0, 0, 10, 10) 0)) (bbox (?dets ! 1))"
    by (simp add: b i1)
  show ?thesis
    using h1 h2
      first_claim_wins_for_best_candidate [where dets = ?dets
        and ts = "[(1, track_at (0, 0, 10, 8) 0)]" and M = "{}"
        and od = "track_at (0, 0, 10, 10) 0" and i = 1 and oid = 0]
    by simp
qed

text \<open>
  Claim C4 as it was stated fails when the earlier track has a better candidate.  Track 0
  has box (0,0,10,10) and track 1 has box (0,0,10,8); detection 0 is (0,0,10,8) and
  detection 1 is (0,0,10,10).  Both tracks have an IOU above 0.3 with detection 0, yet
  track 0 takes detection 1 and the later track 1 takes detection 0.
\<close>

theorem first_claim_counterexample:
  "0.3 < iou (0, 0, 10, 10) (0, 0, 10, 8) \<and> 0.3 < iou (0, 0, 10, 8) (0, 0, 10, 8) \<and>
   claims [det_of (0, 0, 10, 8), det_of (0, 0, 10, 10)]
     [(0, track_at (0, 0, 10, 10) 0), (1, track_at (0, 0, 10, 8) 0)] {}
     = [(0, 1), (1, 0)] \<and>
   live_boxes (associate 1 [det_of (0, 0, 10, 8), det_of (0, 0, 10, 10)]
        (with_tracks [(0, track_at (0, 0, 10, 10) 0), (1, track_at (0, 0, 10, 8) 0)] 2
           initial_state))
     = [(0, (0, 0, 10, 10)), (1, (0, 0, 10, 8))]"
  by code_simp

subsection \<open>The grace period\<close>

text \<open>
  Claim C2.  A live track that matches no detection is to survive, unchanged, exactly
  when the current frame index minus its last matched frame index is below the grace
  period of 5, so that a track without a matching detection for exactly five frames in a
  row is destroyed on the next unmatched frame.  The comment beside the test says the
  same (keep for 5 frames without detection), but the test
  \<^verbatim>\<open>frame_idx - last_seen_frame < 5\<close> keeps a track for four such frames only.  A
  track created in frame 0 is live after four frames without detections and already gone
  after the fifth; a track matched again in frame 1 is live after frame 5 and gone after
  frame 6.
\<close>

theorem grace_period_keeps_four_frames:
  "live_ids (snd (process_video_for_wrong_way notebook_config 400 300
      [ [((0, 0, 10, 10), 0.9, 2)], [], [], [], []])) = [0] \<and>
   live_ids (snd (process_video_for_wrong_way notebook_config 400 300
      [ [((0, 0, 10, 10), 0.9, 2)], [], [], [], [], []])) = [] \<and>
   live_ids (snd (process_video_for_wrong_way notebook_config 400 300
      [ [((0, 0, 10, 10), 0.9, 2)], [((0, 0, 10, 10), 0.9, 2)], [], [], [], []])) = [0] \<and>
   live_ids (snd (process_video_for_wrong_way notebook_config 400 300
      [ [((0, 0, 10, 10), 0.9, 2)], [((0, 0, 10, 10), 0.9, 2)], [], [], [], [], []])) = []"
  by code_simp

subsection \<open>Identities\<close>

text \<open>
  Claim C6.  The tracker invariant (live identities are distinct and below the counter)
  holds at the start of a run and is preserved by the association step and by any number
  of frames.  The counter never decreases.  After the association step the live
  identities are identities that were live before, followed by the new ones, which are
  the old counter value, the next integer, and so on up to the new counter value: each is
  larger than every identity handed out earlier.  An identity below the counter that is
  not live is not live after any number of further frames.
\<close>

theorem identities_fresh_never_reused:
  "tracker_inv initial_state \<and>
   (tracker_inv s \<longrightarrow>
      tracker_inv (associate f dets s) \<and>
      tracker_inv (snd (process_frames cfg w h f frames s)) \<and>
      next_object_id s \<le> next_object_id (associate f dets s) \<and>
      set (map fst (fst (match_tracks f dets (tracked_objects s) ([], {})))) \<subseteq> set (live_ids s) \<and>
      live_ids (associate f dets s) =
        map fst (fst (match_tracks f dets (tracked_objects s) ([], {})))
          @ map (\<lambda>j. next_object_id s + int j)
              [0..<nat (next_object_id (associate f dets s) - next_object_id s)] \<and>
      (k < next_object_id s \<and> k \<notin> set (live_ids s) \<longrightarrow>
         k \<notin> set (live_ids (snd (process_frames cfg w h f frames s)))))"
proof -
  have sub: "set (map fst (fst (match_tracks f dets (tracked_objects s) ([], {}))))
      \<subseteq> set (live_ids s)"
    using match_tracks_keys [of f dets "tracked_objects s" "[]" "{}"]
    by (simp add: live_ids_def)
  show ?thesis
    using sub initial_inv associate_inv [of s f dets] process_frames_inv [of s cfg w h f frames]
      associate_live_ids [of s f dets]
      process_frames_dead_stays_dead [of s k cfg w h f frames]
    by blast
qed

theorem identities_fresh_never_reused_witness:
  "tracker_inv (with_tracks [(1, track_at (0, 0, 10, 10) 0)] 2 initial_state) \<and>
   0 < next_object_id (with_tracks [(1, track_at (0, 0, 10, 10) 0)] 2 initial_state) \<and>
   0 \<notin> set (live_ids (with_tracks [(1, track_at (0, 0, 10, 10) 0)] 2 initial_state)) \<and>
   tracker_inv (associate 1 [det_of (100, 100, 110, 110)]
                  (with_tracks [(1, track_at (0, 0, 10, 10) 0)] 2 initial_state)) \<and>
   0 \<notin> set (live_ids (snd (process_frames notebook_config 400 300 1
                  [ [((100, 100, 110, 110), 0.9, 2)], []]
                  (with_tracks [(1, track_at (0, 0, 10, 10) 0)] 2 initial_state))))"
proof -
  let ?s = "with_tracks [(1, track_at (0, 0, 10, 10) 0)] 2 initial_state"
  have h1: "tracker_inv ?s"
    by (simp add: tracker_inv_def live_ids_def with_tracks_def)
  have h2: "0 < next_object_id ?s \<and> 0 \<notin> set (live_ids ?s)"
    by (simp add: live_ids_def with_tracks_def)
  show ?thesis
    using h1 h2
      identities_fresh_never_reused [where s = ?s and f = 1
        and dets = "[det_of (100, 100, 110, 110)]" and cfg = notebook_config and w = 400
        and h = 300 and frames = "[ [((100, 100, 110, 110), 0.9, 2)], []]" and k = 0]
    by blast
qed

subsection \<open>Determinism\<close>

text \<open>
  Claim C5.  Two runs with the same configuration, frame size, first frame index and
  initial state, fed the same detections, give the same annotations (identity, track data
  and verdict label of every live track) for every frame and the same final state.  More
  precisely, the annotations of the first \<open>n\<close> frames depend only on the detections of
  the first \<open>n\<close> frames, and there is one list of annotations per frame.
\<close>

theorem replay_deterministic:
  "(cfg1 = cfg2 \<and> s1 = s2 \<and> fs = fs' \<longrightarrow>
      process_frames cfg1 w h f fs s1 = process_frames cfg2 w h f fs' s2) \<and>
   (take n fs1 = take n fs2 \<longrightarrow>
      take n (fst (process_frames cfg w h f fs1 s)) = take n (fst (process_frames cfg w h f fs2 s))) \<and>
   length (fst (process_frames cfg w h f fs1 s)) = length fs1"
  using process_frames_prefix [of n fs1 fs2 cfg w h f s] process_frames_length [of cfg w h f fs1 s]
  by blast

theorem replay_deterministic_witness:
  "take 1 [ [((0, 0, 10, 10) :: bbox_t, 0.9 :: real, 2 :: int)], [((0, 0, 10, 10), 0.9, 2)]]
     = take 1 [ [((0, 0, 10, 10), 0.9, 2)], []] \<and>
   take 1 (fst (process_frames notebook_config 400 300 0
                  [ [((0, 0, 10, 10), 0.9, 2)], [((0, 0, 10, 10), 0.9, 2)]] initial_state))
     = take 1 (fst (process_frames notebook_config 400 300 0
                  [ [((0, 0, 10, 10), 0.9, 2)], []] initial_state)) \<and>
   process_frames notebook_config 400 300 0 [ [((0, 0, 10, 10), 0.9, 2)]] initial_state
     = process_frames notebook_config 400 300 0 [ [((0, 0, 10, 10), 0.9, 2)]] initial_state \<and>
   length (fst (process_frames notebook_config 400 300 0
                  [ [((0, 0, 10, 10), 0.9, 2)], [((0, 0, 10, 10), 0.9, 2)]] initial_state))
     = length [ [((0, 0, 10, 10) :: bbox_t, 0.9 :: real, 2 :: int)], [((0, 0, 10, 10), 0.9, 2)]]"
proof -
  let ?fs = "[ [((0, 0, 10, 10) :: bbox_t, 0.9 :: real, 2 :: int)]]"
  let ?fs1 = "[ [((0, 0, 10, 10) :: bbox_t, 0.9 :: real, 2 :: int)], [((0, 0, 10, 10), 0.9, 2)]]"
  let ?fs2 = "[ [((0, 0, 10, 10) :: bbox_t, 0.9 :: real, 2 :: int)], []]"
  have same: "notebook_config = notebook_config \<and> initial_state = initial_state \<and> ?fs = ?fs"
    by (intro conjI refl)
  have pre: "take 1 ?fs1 = take 1 ?fs2"
    by simp
  note r = replay_deterministic [where n = 1 and ?fs1.0 = ?fs1 and ?fs2.0 = ?fs2
      and cfg = notebook_config and s = initial_state and w = 400 and h = 300 and f = 0
      and ?cfg1.0 = notebook_config and ?cfg2.0 = notebook_config
      and ?s1.0 = initial_state and ?s2.0 = initial_state and fs = ?fs and fs' = ?fs]
  from r have "notebook_config = notebook_config \<and> initial_state = initial_state \<and> ?fs = ?fs \<longrightarrow>
      process_frames notebook_config 400 300 0 ?fs initial_state
        = process_frames notebook_config 400 300 0 ?fs initial_state"
    by (rule conjunct1)
  from this same have eq: "process_frames notebook_config 400 300 0 ?fs initial_state
        = process_frames notebook_config 400 300 0 ?fs initial_state"
    by (rule mp)
  from r have "take 1 ?fs1 = take 1 ?fs2 \<longrightarrow>
      take 1 (fst (process_frames notebook_config 400 300 0 ?fs1 initial_state))
        = take 1 (fst (process_frames notebook_config 400 300 0 ?fs2 initial_state))"
    by (rule conjunct1 [OF conjunct2])
  from this pre have out: "take 1 (fst (process_frames notebook_config 400 300 0 ?fs1 initial_state))
        = take 1 (fst (process_frames notebook_config 400 300 0 ?fs2 initial_state))"
    by (rule mp)
  from r have len: "length (fst (process_frames notebook_config 400 300 0 ?fs1 initial_state))
      = length ?fs1"
    by (rule conjunct2 [OF conjunct2])
  from pre out eq len show ?thesis by (intro conjI)
qed

end
